theory Spec2Isabelle
  imports Main "HOL-Library.Sublist"
begin

section \<open>Hierarchical configuration merging: the model\<close>

text \<open>
  A shallow embedding of \<^verbatim>\<open>src/hierarchical_config_merging/config_merger.py\<close>.
  Every function of the module is a HOL function of the same name; an exception is a
  value \<open>Inl e\<close> of the result type, a Python \<^verbatim>\<open>dict\<close> is an association list in
  insertion order, and the three things the module asks of the operating system and of
  the YAML library (resolving a path, listing a directory tree, loading a document) are
  the fields of an environment record.
\<close>

subsection \<open>Structured values\<close>

text \<open>
  What \<^verbatim>\<open>yaml.safe_load\<close> returns: scalars, lists and dicts with string keys
  (the module's annotation is \<^verbatim>\<open>Dict[str, Any]\<close>). Floats, dates and binary
  scalars are outside the fragment; no function of the module looks inside a scalar
  except to test its truth value.
\<close>

datatype scalar = YNull | YBool bool | YInt int | YStr string

datatype yaml = Scalar scalar | Seq "yaml list" | Mapping "(string \<times> yaml) list"

type_synonym dict = "(string \<times> yaml) list"

text \<open>Python's truth value of a parsed document, as used by \<^verbatim>\<open>x or {}\<close>.\<close>

fun truthy :: "yaml \<Rightarrow> bool" where
  "truthy (Scalar YNull) = False"
| "truthy (Scalar (YBool b)) = b"
| "truthy (Scalar (YInt i)) = (i \<noteq> 0)"
| "truthy (Scalar (YStr s)) = (s \<noteq> [])"
| "truthy (Seq xs) = (xs \<noteq> [])"
| "truthy (Mapping m) = (m \<noteq> [])"

fun is_dict :: "yaml \<Rightarrow> bool" where
  "is_dict (Mapping m) = True"
| "is_dict v = False"

subsection \<open>Dictionaries\<close>

text \<open>
  \<^verbatim>\<open>d.get(k)\<close> and \<^verbatim>\<open>d[k] = v\<close> on an insertion-ordered dict: an assignment to a key
  that is present keeps its position, a new key goes to the end.
\<close>

fun dict_get :: "('k \<times> 'v) list \<Rightarrow> 'k \<Rightarrow> 'v option" where
  "dict_get [] k = None"
| "dict_get ((k', v) # rest) k = (if k' = k then Some v else dict_get rest k)"

fun dict_set :: "('k \<times> 'v) list \<Rightarrow> 'k \<Rightarrow> 'v \<Rightarrow> ('k \<times> 'v) list" where
  "dict_set [] k v = [(k, v)]"
| "dict_set ((k', v') # rest) k v =
     (if k' = k then (k, v) # rest else (k', v') # dict_set rest k v)"

text \<open>
  A list is a dict when no key occurs twice, at every level of nesting. Python cannot
  build any other.
\<close>

fun wf_yaml :: "yaml \<Rightarrow> bool" where
  "wf_yaml (Scalar s) = True"
| "wf_yaml (Seq xs) = list_all wf_yaml xs"
| "wf_yaml (Mapping m) = (distinct (map fst m) \<and> list_all (\<lambda>kv. wf_yaml (snd kv)) m)"

subsection \<open>The deep merge\<close>

text \<open>
  \<^verbatim>\<open>_deep_merge(base, override)\<close>: the first argument is \<^verbatim>\<open>result\<close>, which starts as
  the copy of \<^verbatim>\<open>base\<close>; the second is what is left of \<^verbatim>\<open>override.items()\<close>.
\<close>

fun deep_merge :: "dict \<Rightarrow> dict \<Rightarrow> dict" where
  "deep_merge result [] = result"
| "deep_merge result ((key, val) # rest) =
     (case (dict_get result key, val) of
        (Some (Mapping rm), Mapping vm) \<Rightarrow>
          deep_merge (dict_set result key (Mapping (deep_merge rm vm))) rest
      | _ \<Rightarrow> deep_merge (dict_set result key val) rest)"

text \<open>Reading a value at a path of keys, to state what the merge does at every depth.\<close>

fun get_path :: "yaml \<Rightarrow> string list \<Rightarrow> yaml option" where
  "get_path v [] = Some v"
| "get_path (Mapping m) (k # ks) =
     (case dict_get m k of None \<Rightarrow> None | Some v \<Rightarrow> get_path v ks)"
| "get_path v (k # ks) = None"

subsection \<open>Paths\<close>

text \<open>
  A \<^verbatim>\<open>pathlib\<close> path is its tuple of parts; an absolute POSIX path has the root
  \<^verbatim>\<open>'/'\<close> as first part.
\<close>

type_synonym path = "string list"

fun join_slash :: "string list \<Rightarrow> string" where
  "join_slash [] = []"
| "join_slash [c] = c"
| "join_slash (c # cs) = c @ ''/'' @ join_slash cs"

definition str_path :: "path \<Rightarrow> string" where
  "str_path p =
     (case p of
        [] \<Rightarrow> ''.''
      | a # cs \<Rightarrow> if a = ''/'' \<or> a = ''//'' then a @ join_slash cs else join_slash (a # cs))"

text \<open>\<^verbatim>\<open>s.split('/')\<close> and \<^verbatim>\<open>Path(s).parts\<close> for the POSIX flavour.\<close>

fun split_slash :: "string \<Rightarrow> string list" where
  "split_slash [] = [[]]"
| "split_slash (x # xs) =
     (if x = CHR ''/'' then [] # split_slash xs
      else (case split_slash xs of [] \<Rightarrow> [[x]] | w # ws \<Rightarrow> (x # w) # ws))"

definition path_parts :: "string \<Rightarrow> path" where
  "path_parts s =
     (let names = filter (\<lambda>c. c \<noteq> [] \<and> c \<noteq> ''.'') (split_slash s)
      in if prefix ''//'' s \<and> \<not> prefix ''///'' s then ''//'' # names
         else if prefix ''/'' s then ''/'' # names
         else names)"

datatype value_error =
    Message string
  | Not_in_subpath path path

datatype error =
    ValueError value_error
  | AttributeError
  | KeyError string
  | TypeError
  | Exception string

text \<open>
  \<open>ValueError (Message m)\<close> is a \<^verbatim>\<open>ValueError\<close> the module raises itself, with its text;
  \<open>ValueError (Not_in_subpath p q)\<close> is the \<^verbatim>\<open>ValueError\<close> that
  \<^verbatim>\<open>p.relative_to(q)\<close> raises inside \<^verbatim>\<open>pathlib\<close>, whose text is the library's.
  \<open>AttributeError\<close> is what \<^verbatim>\<open>config.keys()\<close>, \<^verbatim>\<open>base.copy()\<close> and
  \<^verbatim>\<open>override.items()\<close> raise on a value that is not a dict, \<open>KeyError\<close> what
  \<^verbatim>\<open>key_sources[key]\<close> raises on a missing key, \<open>TypeError\<close> what an item assignment
  raises on an object that takes none, and \<open>Exception\<close> is the one raised by
  \<^verbatim>\<open>parse_yaml_configs\<close>.
\<close>

definition relative_to :: "path \<Rightarrow> path \<Rightarrow> error + path" where
  "relative_to p other =
     (if prefix other p then Inr (drop (length other) p)
      else Inl (ValueError (Not_in_subpath p other)))"

text \<open>
  The annotation of \<^verbatim>\<open>_deep_merge\<close> asks for two dicts, and that is what \<open>deep_merge\<close>
  takes. Nothing stops a caller from passing other values: \<open>deep_merge_any\<close> is the same
  function on any two values. A scalar has no \<^verbatim>\<open>copy\<close> method; a list has one, and no
  item can be assigned to it under a string key; only a dict has \<^verbatim>\<open>items\<close>.
\<close>

definition deep_merge_any :: "yaml \<Rightarrow> yaml \<Rightarrow> error + yaml" where
  "deep_merge_any base override =
     (case base of
        Scalar x \<Rightarrow> Inl AttributeError
      | Seq xs \<Rightarrow>
          (case override of
             Mapping [] \<Rightarrow> Inr (Seq xs)
           | Mapping (item # rest) \<Rightarrow> Inl TypeError
           | _ \<Rightarrow> Inl AttributeError)
      | Mapping b \<Rightarrow>
          (case override of
             Mapping ov \<Rightarrow> Inr (Mapping (deep_merge b ov))
           | _ \<Rightarrow> Inl AttributeError))"

subsection \<open>The environment\<close>

text \<open>
  A directory as \<^verbatim>\<open>os.scandir\<close> shows it: the names of its entries that are not
  directories, and its subdirectories in listing order.
\<close>

datatype dir = Dir (files: "string list") (subdirs: "(string \<times> dir) list")

text \<open>
  \<open>resolve\<close> is \<^verbatim>\<open>Path.resolve\<close>; \<open>tree_at p\<close> is the directory tree found at the
  resolved path \<open>p\<close>, if \<open>p\<close> is a directory; \<open>load p\<close> is
  \<^verbatim>\<open>yaml.safe_load(open(p))\<close>, giving the text of the exception when opening or
  parsing fails.
\<close>

record env =
  resolve :: "path \<Rightarrow> path"
  tree_at :: "path \<Rightarrow> dir option"
  load :: "path \<Rightarrow> string + yaml"

text \<open>\<^verbatim>\<open>os.walk(base_dir)\<close>, top-down: one triple \<open>(root, dirs, files)\<close> per directory.\<close>

fun walk :: "path \<Rightarrow> dir \<Rightarrow> (path \<times> string list \<times> string list) list" where
  "walk root_path (Dir fs subs) =
     (root_path, map fst subs, fs) #
     concat (map (\<lambda>(name, d). walk (root_path @ [name]) d) subs)"

definition os_walk :: "env \<Rightarrow> path \<Rightarrow> (path \<times> string list \<times> string list) list" where
  "os_walk e base_dir =
     (case tree_at e base_dir of None \<Rightarrow> [] | Some d \<Rightarrow> walk base_dir d)"

subsection \<open>Discovery\<close>

definition is_yaml_name :: "string \<Rightarrow> bool" where
  "is_yaml_name file = (suffix ''.yaml'' file \<or> suffix ''.yml'' file)"

text \<open>The loop over \<^verbatim>\<open>os.walk(base_dir)\<close>, with \<^verbatim>\<open>yaml_files\<close> as accumulator.\<close>

fun collect_yaml ::
  "path \<Rightarrow> path \<Rightarrow> (path \<times> string list \<times> string list) list \<Rightarrow> path list \<Rightarrow> error + path list"
where
  "collect_yaml base_dir target_parts [] yaml_files = Inr yaml_files"
| "collect_yaml base_dir target_parts ((root_path, dirs, fs) # rest) yaml_files =
     (case relative_to root_path base_dir of
        Inl e \<Rightarrow> Inl e
      | Inr root_parts \<Rightarrow>
          if length root_parts = 0 \<or>
             (length root_parts \<le> length target_parts \<and>
              root_parts = take (length root_parts) target_parts)
          then collect_yaml base_dir target_parts rest
                 (yaml_files @ map (\<lambda>file. root_path @ [file]) (filter is_yaml_name fs))
          else collect_yaml base_dir target_parts rest yaml_files)"

definition find_yaml_files_in_hierarchy :: "env \<Rightarrow> path \<Rightarrow> path \<Rightarrow> error + path list" where
  "find_yaml_files_in_hierarchy e base target =
     (let base_dir = resolve e base; target_path = resolve e target
      in if \<not> prefix (str_path base_dir) (str_path target_path)
         then Inl (ValueError (Message
                (''Target path '' @ str_path target_path @
                 '' is not within base directory '' @ str_path base_dir)))
         else (case relative_to target_path base_dir of
                 Inl err \<Rightarrow> Inl err
               | Inr target_parts \<Rightarrow>
                   collect_yaml base_dir target_parts (os_walk e base_dir) []))"

subsection \<open>Parsing\<close>

fun parse_loop :: "env \<Rightarrow> path list \<Rightarrow> (string \<times> yaml) list \<Rightarrow> error + (string \<times> yaml) list" where
  "parse_loop e [] configs = Inr configs"
| "parse_loop e (yaml_file # rest) configs =
     (case load e yaml_file of
        Inl cause \<Rightarrow>
          Inl (Exception (''Failed to parse '' @ str_path yaml_file @ '': '' @ cause))
      | Inr doc \<Rightarrow>
          parse_loop e rest
            (dict_set configs (str_path yaml_file) (if truthy doc then doc else Mapping [])))"

definition parse_yaml_configs :: "env \<Rightarrow> path list \<Rightarrow> error + (string \<times> yaml) list" where
  "parse_yaml_configs e yaml_files = parse_loop e yaml_files []"

subsection \<open>Merging by depth\<close>

text \<open>Decimal digits of a number, as an f-string prints it.\<close>

function str_nat :: "nat \<Rightarrow> string" where
  "str_nat n =
     (if n < 10 then [''0123456789'' ! n]
      else str_nat (n div 10) @ [''0123456789'' ! (n mod 10)])"
  by pat_completeness auto
termination
  by (relation "measure id") auto

definition collision_msg :: "nat \<Rightarrow> string \<Rightarrow> string \<Rightarrow> string \<Rightarrow> string" where
  "collision_msg depth key existing_source file_path =
     ''Key collision at depth '' @ str_nat depth @ '': '' @ [CHR 0x27] @ key @ [CHR 0x27] @
     '' found in both '' @ existing_source @ '' and '' @ file_path"

definition depth_of :: "string \<Rightarrow> nat" where
  "depth_of file_path = length (path_parts file_path)"

text \<open>
  \<^verbatim>\<open>depth_groups[depth].append(x)\<close> on a \<^verbatim>\<open>defaultdict(list)\<close>, and reading a group.
\<close>

definition group_append ::
  "(nat \<times> 'a list) list \<Rightarrow> nat \<Rightarrow> 'a \<Rightarrow> (nat \<times> 'a list) list" where
  "group_append groups depth x =
     (case dict_get groups depth of
        None \<Rightarrow> dict_set groups depth [x]
      | Some xs \<Rightarrow> dict_set groups depth (xs @ [x]))"

definition group_get :: "(nat \<times> 'a list) list \<Rightarrow> nat \<Rightarrow> 'a list" where
  "group_get groups depth = (case dict_get groups depth of None \<Rightarrow> [] | Some xs \<Rightarrow> xs)"

fun group_by_depth ::
  "(string \<times> yaml) list \<Rightarrow> (nat \<times> (string \<times> yaml) list) list \<Rightarrow> (nat \<times> (string \<times> yaml) list) list"
where
  "group_by_depth [] depth_groups = depth_groups"
| "group_by_depth ((file_path, config) # rest) depth_groups =
     group_by_depth rest (group_append depth_groups (depth_of file_path) (file_path, config))"

text \<open>
  The collision check of one depth group. The state is
  \<open>(all_keys_at_depth, key_sources, errors)\<close>; \<open>scan_keys\<close> is the loop over
  \<^verbatim>\<open>config.keys()\<close> of one file, \<open>scan_files\<close> the loop over the files of the group.
\<close>

type_synonym scan_state = "string set \<times> (string \<times> string) list \<times> string list"

fun scan_keys :: "nat \<Rightarrow> string \<Rightarrow> string list \<Rightarrow> scan_state \<Rightarrow> error + scan_state" where
  "scan_keys depth file_path [] st = Inr st"
| "scan_keys depth file_path (key # keys) (all_keys, key_sources, errors) =
     (if key \<in> all_keys
      then (case dict_get key_sources key of
              None \<Rightarrow> Inl (KeyError key)
            | Some existing_source \<Rightarrow>
                scan_keys depth file_path keys
                  (all_keys, key_sources,
                   errors @ [collision_msg depth key existing_source file_path]))
      else scan_keys depth file_path keys
             (insert key all_keys, dict_set key_sources key file_path, errors))"

fun scan_files :: "nat \<Rightarrow> (string \<times> yaml) list \<Rightarrow> scan_state \<Rightarrow> error + scan_state" where
  "scan_files depth [] st = Inr st"
| "scan_files depth ((file_path, config) # rest) st =
     (case config of
        Mapping m \<Rightarrow>
          (case scan_keys depth file_path (map fst m) st of
             Inl e \<Rightarrow> Inl e
           | Inr st' \<Rightarrow> scan_files depth rest st')
      | _ \<Rightarrow> Inl AttributeError)"

text \<open>The second loop over a group: folding its files into \<^verbatim>\<open>merged_config\<close>.\<close>

fun merge_files :: "(string \<times> yaml) list \<Rightarrow> dict \<Rightarrow> error + dict" where
  "merge_files [] merged_config = Inr merged_config"
| "merge_files ((file_path, config) # rest) merged_config =
     (case config of
        Mapping m \<Rightarrow> merge_files rest (deep_merge merged_config m)
      | _ \<Rightarrow> Inl AttributeError)"

text \<open>The loop over \<^verbatim>\<open>sorted(depth_groups.keys())\<close>.\<close>

fun merge_depths ::
  "(nat \<times> (string \<times> yaml) list) list \<Rightarrow> nat list \<Rightarrow> dict \<times> string list \<Rightarrow> error + dict \<times> string list"
where
  "merge_depths depth_groups [] acc = Inr acc"
| "merge_depths depth_groups (depth # depths) (merged_config, errors) =
     (let depth_configs = group_get depth_groups depth
      in case scan_files depth depth_configs ({}, [], errors) of
           Inl e \<Rightarrow> Inl e
         | Inr (all_keys, key_sources, errors') \<Rightarrow>
             (case merge_files depth_configs merged_config of
                Inl e \<Rightarrow> Inl e
              | Inr merged' \<Rightarrow> merge_depths depth_groups depths (merged', errors')))"

definition merge_configs_by_depth :: "(string \<times> yaml) list \<Rightarrow> error + dict \<times> string list" where
  "merge_configs_by_depth configs =
     (if configs = [] then Inr ([], [])
      else (let depth_groups = group_by_depth configs []
            in merge_depths depth_groups (sort (map fst depth_groups)) ([], [])))"

subsection \<open>The entry point\<close>

definition merge_hierarchical_configs :: "env \<Rightarrow> path \<Rightarrow> path \<Rightarrow> error + dict \<times> string list" where
  "merge_hierarchical_configs e base_dir target_path =
     (case find_yaml_files_in_hierarchy e base_dir target_path of
        Inl err \<Rightarrow> Inl err
      | Inr yaml_files \<Rightarrow>
          if yaml_files = []
          then Inr ([], [''No YAML files found in hierarchy from '' @ str_path base_dir @
                         '' to '' @ str_path target_path])
          else (case parse_yaml_configs e yaml_files of
                  Inl err \<Rightarrow> Inl err
                | Inr configs \<Rightarrow> merge_configs_by_depth configs))"

section \<open>The deep merge on a store of objects\<close>

text \<open>
  Python dicts are objects, and \<^verbatim>\<open>_deep_merge\<close> copies \<^verbatim>\<open>base\<close> one level deep only:
  the copy holds the same references as \<^verbatim>\<open>base\<close>. To say that the inputs are left as
  they were, the function is modelled a second time on a store: an object lives at an
  address, a list or dict holds addresses, \<^verbatim>\<open>base.copy()\<close> allocates a new dict with the
  entries of \<^verbatim>\<open>base\<close>, and \<^verbatim>\<open>result[key] = x\<close> overwrites the object at the address of
  \<^verbatim>\<open>result\<close>. A store may hold a dict that contains itself, on which the recursion of
  \<^verbatim>\<open>_deep_merge\<close> does not end; the model takes the number of nested calls it may make
  and returns \<open>None\<close> when that number is used up.
\<close>

type_synonym addr = nat

datatype obj = OScalar scalar | OList "addr list" | ODict "(string \<times> addr) list"

type_synonym store = "obj list"

definition lookup :: "store \<Rightarrow> addr \<Rightarrow> obj option" where
  "lookup s a = (if a < length s then Some (s ! a) else None)"

definition is_dict_at :: "store \<Rightarrow> addr \<Rightarrow> bool" where
  "is_dict_at s a = (case lookup s a of Some (ODict es) \<Rightarrow> True | _ \<Rightarrow> False)"

text \<open>\<^verbatim>\<open>d[key] = v\<close> on the object at address \<open>d\<close>.\<close>

definition set_item :: "store \<Rightarrow> addr \<Rightarrow> string \<Rightarrow> addr \<Rightarrow> error + store" where
  "set_item s d key v =
     (case lookup s d of
        Some (ODict es) \<Rightarrow> Inr (s[d := ODict (dict_set es key v)])
      | _ \<Rightarrow> Inl TypeError)"

text \<open>
  \<open>deep_merge_st\<close> is \<^verbatim>\<open>_deep_merge\<close>; \<open>merge_items_st\<close> is its loop, over the items of
  \<^verbatim>\<open>override\<close> as they are when the loop starts, with \<^verbatim>\<open>result\<close> read from the store
  at every turn. A list \<^verbatim>\<open>base\<close> is copied too, and comes back when \<^verbatim>\<open>override\<close> is
  the empty dict; any item of \<^verbatim>\<open>override\<close> then fails to be assigned.
\<close>

fun deep_merge_st :: "nat \<Rightarrow> store \<Rightarrow> addr \<Rightarrow> addr \<Rightarrow> (error + store \<times> addr) option"
and merge_items_st :: "nat \<Rightarrow> store \<Rightarrow> addr \<Rightarrow> (string \<times> addr) list \<Rightarrow> (error + store) option"
where
  "deep_merge_st 0 s base override = None"
| "deep_merge_st (Suc n) s base override =
     (case lookup s base of
        Some (ODict bm) \<Rightarrow>
          (case lookup s override of
             Some (ODict om) \<Rightarrow>
               (case merge_items_st n (s @ [ODict bm]) (length s) om of
                  None \<Rightarrow> None
                | Some (Inl e) \<Rightarrow> Some (Inl e)
                | Some (Inr s') \<Rightarrow> Some (Inr (s', length s)))
           | _ \<Rightarrow> Some (Inl AttributeError))
      | Some (OList xs) \<Rightarrow>
          (case lookup s override of
             Some (ODict []) \<Rightarrow> Some (Inr (s @ [OList xs], length s))
           | Some (ODict (item # rest)) \<Rightarrow> Some (Inl TypeError)
           | _ \<Rightarrow> Some (Inl AttributeError))
      | _ \<Rightarrow> Some (Inl AttributeError))"
| "merge_items_st n s result [] = Some (Inr s)"
| "merge_items_st n s result ((key, val) # rest) =
     (case lookup s result of
        Some (ODict rm) \<Rightarrow>
          (case dict_get rm key of
             Some old \<Rightarrow>
               if is_dict_at s old \<and> is_dict_at s val
               then (case deep_merge_st n s old val of
                       None \<Rightarrow> None
                     | Some (Inl e) \<Rightarrow> Some (Inl e)
                     | Some (Inr (s', sub)) \<Rightarrow>
                         (case set_item s' result key sub of
                            Inl e \<Rightarrow> Some (Inl e)
                          | Inr s'' \<Rightarrow> merge_items_st n s'' result rest))
               else (case set_item s result key val of
                       Inl e \<Rightarrow> Some (Inl e)
                     | Inr s'' \<Rightarrow> merge_items_st n s'' result rest)
           | None \<Rightarrow>
               (case set_item s result key val of
                  Inl e \<Rightarrow> Some (Inl e)
                | Inr s'' \<Rightarrow> merge_items_st n s'' result rest))
      | _ \<Rightarrow> Some (Inl TypeError))"

text \<open>
  \<open>repr X s a v\<close>: in the store \<open>s\<close> the object at \<open>a\<close> holds the tree \<open>v\<close>, and no
  object of the tree lives at an address of \<open>X\<close>. With \<open>X\<close> empty this is what the
  caller sees when it reads the object at \<open>a\<close>.
\<close>

fun repr :: "addr set \<Rightarrow> store \<Rightarrow> addr \<Rightarrow> yaml \<Rightarrow> bool" where
  "repr X s a (Scalar x) = (a \<notin> X \<and> lookup s a = Some (OScalar x))"
| "repr X s a (Seq vs) =
     (a \<notin> X \<and> (case lookup s a of
                   Some (OList as) \<Rightarrow> list_all2 (repr X s) as vs
                 | _ \<Rightarrow> False))"
| "repr X s a (Mapping m) =
     (a \<notin> X \<and> (case lookup s a of
                   Some (ODict es) \<Rightarrow>
                     map fst es = map fst m \<and> list_all2 (repr X s) (map snd es) (map snd m)
                 | _ \<Rightarrow> False))"

text \<open>The entries of a dict object hold, key by key, the values of \<open>m\<close>.\<close>

definition ents :: "addr set \<Rightarrow> store \<Rightarrow> (string \<times> addr) list \<Rightarrow> dict \<Rightarrow> bool" where
  "ents X s es m = (map fst es = map fst m \<and> list_all2 (repr X s) (map snd es) (map snd m))"

text \<open>
  A store with the dict \<^verbatim>\<open>{a: 1, c: {nested: base}}\<close> at address 3 and the dict
  \<^verbatim>\<open>{c: {nested: override, new: value}, d: 1}\<close> at address 7.
\<close>

definition example_store :: store where
  "example_store =
     [OScalar (YInt 1), OScalar (YStr ''base''), ODict [(''nested'', 1)],
      ODict [(''a'', 0), (''c'', 2)],
      OScalar (YStr ''override''), OScalar (YStr ''value''),
      ODict [(''nested'', 4), (''new'', 5)], ODict [(''c'', 6), (''d'', 0)]]"

section \<open>Notions used to state the properties\<close>

text \<open>
  None of the following is part of the module. They name what the statements below
  talk about: the value a single key receives in a merge, the directories reachable
  in a tree, the collisions of a depth group as structured events, and a few concrete
  inputs on which the theorems are exercised.
\<close>

subsection \<open>One step of the merge\<close>

text \<open>The value stored under a key whose old value is \<open>old\<close> and whose override is \<open>val\<close>.\<close>

definition combine :: "yaml option \<Rightarrow> yaml \<Rightarrow> yaml" where
  "combine old val =
     (case (old, val) of
        (Some (Mapping rm), Mapping vm) \<Rightarrow> Mapping (deep_merge rm vm)
      | _ \<Rightarrow> val)"

fun dict_of :: "yaml \<Rightarrow> dict" where
  "dict_of (Mapping m) = m"
| "dict_of v = []"

subsection \<open>Directories below a directory\<close>

text \<open>
  The directories reached from \<open>d\<close> by following the names \<open>rel\<close>. A file system has
  at most one; the list form needs no assumption on the listing.
\<close>

fun dirs_at :: "dir \<Rightarrow> string list \<Rightarrow> dir list" where
  "dirs_at d [] = [d]"
| "dirs_at (Dir fs subs) (n # rel) =
     concat (map (\<lambda>(name, sub). if name = n then dirs_at sub rel else []) subs)"

text \<open>What \<^verbatim>\<open>Path.resolve\<close> returns on POSIX: a path that starts at a root.\<close>

definition is_absolute :: "path \<Rightarrow> bool" where
  "is_absolute p = (case p of [] \<Rightarrow> False | a # cs \<Rightarrow> a = ''/'' \<or> a = ''//'')"

subsection \<open>Collisions as events\<close>

text \<open>
  A collision diagnostic before it is formatted: depth, key, the source recorded for the
  key, and the file in which the key was seen again. The functions below compute the
  events of the keys of one file, of the files of one group, and of a list of depths,
  together with \<^verbatim>\<open>key_sources\<close> as the scan leaves it.
\<close>

type_synonym event = "nat \<times> string \<times> string \<times> string"

definition render :: "event \<Rightarrow> string" where
  "render ev = (case ev of (depth, key, existing_source, file_path) \<Rightarrow>
      collision_msg depth key existing_source file_path)"

fun key_events :: "nat \<Rightarrow> string \<Rightarrow> string list \<Rightarrow> (string \<times> string) list \<Rightarrow> event list" where
  "key_events depth file_path [] key_sources = []"
| "key_events depth file_path (key # keys) key_sources =
     (case dict_get key_sources key of
        Some existing_source \<Rightarrow>
          (depth, key, existing_source, file_path) # key_events depth file_path keys key_sources
      | None \<Rightarrow> key_events depth file_path keys (dict_set key_sources key file_path))"

fun sources_after_keys :: "string \<Rightarrow> string list \<Rightarrow> (string \<times> string) list \<Rightarrow> (string \<times> string) list" where
  "sources_after_keys file_path [] key_sources = key_sources"
| "sources_after_keys file_path (key # keys) key_sources =
     (case dict_get key_sources key of
        Some existing_source \<Rightarrow> sources_after_keys file_path keys key_sources
      | None \<Rightarrow> sources_after_keys file_path keys (dict_set key_sources key file_path))"

fun file_events :: "nat \<Rightarrow> (string \<times> yaml) list \<Rightarrow> (string \<times> string) list \<Rightarrow> event list" where
  "file_events depth [] key_sources = []"
| "file_events depth ((file_path, config) # rest) key_sources =
     key_events depth file_path (map fst (dict_of config)) key_sources @
     file_events depth rest (sources_after_keys file_path (map fst (dict_of config)) key_sources)"

fun sources_after_files :: "(string \<times> yaml) list \<Rightarrow> (string \<times> string) list \<Rightarrow> (string \<times> string) list" where
  "sources_after_files [] key_sources = key_sources"
| "sources_after_files ((file_path, config) # rest) key_sources =
     sources_after_files rest (sources_after_keys file_path (map fst (dict_of config)) key_sources)"

fun depth_events :: "(nat \<times> (string \<times> yaml) list) list \<Rightarrow> nat list \<Rightarrow> event list" where
  "depth_events depth_groups [] = []"
| "depth_events depth_groups (depth # depths) =
     file_events depth (group_get depth_groups depth) [] @ depth_events depth_groups depths"

text \<open>The files of a list that define the top-level key \<open>k\<close>, in order.\<close>

definition definers :: "string \<Rightarrow> (string \<times> yaml) list \<Rightarrow> string list" where
  "definers k fs = map fst (filter (\<lambda>x. k \<in> fst ` set (dict_of (snd x))) fs)"

subsection \<open>Concrete inputs\<close>

text \<open>The two dicts of \<^verbatim>\<open>test_deep_merge_basic\<close>, with a list and a type mismatch added.\<close>

definition example_base :: dict where
  "example_base =
     [(''a'', Scalar (YInt 1)), (''b'', Scalar (YInt 2)),
      (''c'', Mapping [(''nested'', Scalar (YStr ''base''))]),
      (''hosts'', Seq [Scalar (YStr ''h1''), Scalar (YStr ''h2'')]),
      (''mode'', Scalar (YStr ''plain''))]"

definition example_override :: dict where
  "example_override =
     [(''b'', Scalar (YInt 3)), (''d'', Scalar (YInt 4)),
      (''c'', Mapping [(''nested'', Scalar (YStr ''override'')), (''new'', Scalar (YStr ''value''))]),
      (''hosts'', Seq [Scalar (YStr ''h3'')]),
      (''mode'', Mapping [(''tls'', Scalar (YBool True))])]"

text \<open>
  The tree of \<^verbatim>\<open>test_find_yaml_files_in_hierarchy_basic\<close> under \<^verbatim>\<open>/aaa\<close>, with a file
  that is not YAML and one whose suffix is in upper case; the document of
  \<^verbatim>\<open>/aaa/a/config.yml\<close> is the number 0 and the one under \<^verbatim>\<open>a/c/b\<close> does not parse.
\<close>

definition example_tree :: dir where
  "example_tree =
     Dir [''config.yaml'', ''notes.txt'', ''UPPER.YAML'']
       [(''a'', Dir [''config.yml'']
          [(''a'', Dir [] [(''b'', Dir [''config.yaml''] [])]),
           (''c'', Dir [] [(''b'', Dir [''config.yaml''] [])])])]"

definition example_load :: "path \<Rightarrow> string + yaml" where
  "example_load p =
     (if p = [''/'', ''aaa'', ''config.yaml'']
      then Inr (Mapping [(''name'', Scalar (YStr ''base'')), (''port'', Scalar (YInt 80))])
      else if p = [''/'', ''aaa'', ''a'', ''config.yml''] then Inr (Scalar (YInt 0))
      else if p = [''/'', ''aaa'', ''a'', ''a'', ''b'', ''config.yaml'']
      then Inr (Mapping [(''name'', Scalar (YStr ''leaf''))])
      else Inl ''mapping values are not allowed here'')"

definition example_env :: env where
  "example_env =
     \<lparr> resolve = (\<lambda>p. p),
       tree_at = (\<lambda>p. if p = [''/'', ''aaa''] then Some example_tree
                       else if p = [''/'', ''empty''] then Some (Dir [''README''] [])
                       else None),
       load = example_load \<rparr>"


definition example_collisions :: "(string \<times> yaml) list" where
  "example_collisions =
     [(''/base/a.yaml'', Mapping [(''k'', Scalar (YInt 1)), (''x'', Scalar (YInt 1))]),
      (''/base/deep/z.yaml'', Mapping [(''k'', Scalar (YInt 0))]),
      (''/base/b.yaml'', Mapping [(''x'', Scalar (YInt 2)), (''k'', Scalar (YInt 2))]),
      (''/base/c.yaml'', Mapping [(''k'', Scalar (YInt 3))])]"


section \<open>Properties of the deep merge\<close>

lemma combine_simps [simp]:
  "combine old (Scalar s) = Scalar s"
  "combine old (Seq xs) = Seq xs"
  "combine None v = v"
  "combine (Some (Scalar s)) v = v"
  "combine (Some (Seq xs)) v = v"
  "combine (Some (Mapping rm)) (Mapping vm) = Mapping (deep_merge rm vm)"
  by (simp_all add: combine_def split: option.splits yaml.splits)

lemma deep_merge_Cons:
  "deep_merge result ((key, val) # rest) =
     deep_merge (dict_set result key (combine (dict_get result key) val)) rest"
  by (simp add: combine_def split: option.splits yaml.splits)

lemma dict_get_set: "dict_get (dict_set d k v) k' = (if k' = k then Some v else dict_get d k')"
  by (induction d) auto

lemma dict_set_same: "dict_get d k = Some v \<Longrightarrow> dict_set d k v = d"
  by (induction d) (auto split: if_splits)

lemma dict_get_None_iff: "dict_get d k = None \<longleftrightarrow> k \<notin> fst ` set d"
  by (induction d) (auto split: if_splits)

lemma dict_get_distinct: "distinct (map fst d) \<Longrightarrow> (k, v) \<in> set d \<Longrightarrow> dict_get d k = Some v"
  by (induction d) (auto simp: rev_image_eqI)

lemma dict_get_mem: "dict_get d k = Some v \<Longrightarrow> (k, v) \<in> set d"
  by (induction d) (auto split: if_splits)

lemma dict_get_deep_merge:
  "distinct (map fst ov) \<Longrightarrow>
   dict_get (deep_merge base ov) k =
     (case dict_get ov k of
        None \<Rightarrow> dict_get base k
      | Some vb \<Rightarrow> Some (combine (dict_get base k) vb))"
proof (induction ov arbitrary: base)
  case Nil
  then show ?case by simp
next
  case (Cons kv rest)
  obtain key val where kv: "kv = (key, val)" by (cases kv)
  from Cons.prems kv have d: "distinct (map fst rest)" and nk: "key \<notin> fst ` set rest" by auto
  from nk have none: "dict_get rest key = None" by (simp add: dict_get_None_iff)
  show ?case
    unfolding kv deep_merge_Cons
    using none by (auto simp: Cons.IH [OF d] dict_get_set split: option.splits)
qed

lemma deep_merge_absorb:
  "(\<And>k v. (k, v) \<in> set ov \<Longrightarrow> \<exists>u. dict_get r k = Some u \<and> combine (Some u) v = u) \<Longrightarrow>
   deep_merge r ov = r"
proof (induction ov)
  case Nil
  then show ?case by simp
next
  case (Cons kv rest)
  obtain key val where kv: "kv = (key, val)" by (cases kv)
  from Cons.prems [of key val] kv obtain u where u: "dict_get r key = Some u" "combine (Some u) val = u"
    by auto
  have "deep_merge r (kv # rest) = deep_merge r rest"
    unfolding kv deep_merge_Cons by (simp add: u dict_set_same)
  also have "\<dots> = r" using Cons.prems by (intro Cons.IH) auto
  finally show ?case .
qed

lemma wf_yaml_member: "wf_yaml (Mapping m) \<Longrightarrow> (k, v) \<in> set m \<Longrightarrow> wf_yaml v"
  by (auto simp: list_all_iff)

lemma deep_merge_self_aux: "wf_yaml v \<Longrightarrow> v = Mapping m \<Longrightarrow> deep_merge m m = m"
proof (induction v arbitrary: m)
  case (Mapping x)
  then have m: "x = m" by simp
  show ?case
  proof (rule deep_merge_absorb)
    fix k w assume kw: "(k, w) \<in> set m"
    from Mapping.prems m have dist: "distinct (map fst m)" by simp
    have get: "dict_get m k = Some w" using dist kw by (rule dict_get_distinct)
    have wfw: "wf_yaml w" using Mapping.prems kw m wf_yaml_member by blast
    have "combine (Some w) w = w"
    proof (cases w)
      case (Mapping wm)
      have "deep_merge wm wm = wm"
        by (rule Mapping.IH [of "(k, w)" w]) (use kw m wfw Mapping in auto)
      then show ?thesis by (simp add: combine_def Mapping)
    qed simp_all
    with get show "\<exists>u. dict_get m k = Some u \<and> combine (Some u) w = u" by blast
  qed
qed simp_all

lemma deep_merge_self: "wf_yaml (Mapping m) \<Longrightarrow> deep_merge m m = m"
  using deep_merge_self_aux by blast

lemma deep_merge_idem_aux:
  "wf_yaml v \<Longrightarrow> v = Mapping b \<Longrightarrow> deep_merge (deep_merge a b) b = deep_merge a b"
proof (induction v arbitrary: a b)
  case (Mapping x)
  then have x: "x = b" by simp
  from Mapping.prems have dist: "distinct (map fst b)" by simp
  show ?case
  proof (rule deep_merge_absorb)
    fix k w assume kw: "(k, w) \<in> set b"
    have get: "dict_get b k = Some w" using dist kw by (rule dict_get_distinct)
    have wfw: "wf_yaml w" using Mapping.prems kw wf_yaml_member by blast
    let ?u = "combine (dict_get a k) w"
    have g: "dict_get (deep_merge a b) k = Some ?u"
      by (simp add: dict_get_deep_merge [OF dist] get)
    have "combine (Some ?u) w = ?u"
    proof (cases w)
      case wm: (Mapping wm)
      show ?thesis
      proof (cases "\<exists>am. dict_get a k = Some (Mapping am)")
        case True
        then obtain am where am: "dict_get a k = Some (Mapping am)" by blast
        have "deep_merge (deep_merge am wm) wm = deep_merge am wm"
          by (rule Mapping.IH [of "(k, w)" w]) (use kw x wfw wm in auto)
        then show ?thesis by (simp add: combine_def wm am)
      next
        case False
        then have u: "?u = w"
          by (auto simp: combine_def wm split: option.splits yaml.splits)
        have "deep_merge wm wm = wm" using wfw wm deep_merge_self by blast
        then show ?thesis unfolding u by (simp add: combine_def wm)
      qed
    qed simp_all
    with g show "\<exists>u. dict_get (deep_merge a b) k = Some u \<and> combine (Some u) w = u" by blast
  qed
qed simp_all

text \<open>
  Claim C8. Merging the same override a second time changes nothing:
  \<^verbatim>\<open>_deep_merge(_deep_merge(A, B), B) == _deep_merge(A, B)\<close>.
\<close>

theorem deep_merge_idempotent:
  "wf_yaml (Mapping b) \<Longrightarrow> deep_merge (deep_merge a b) b = deep_merge a b"
  using deep_merge_idem_aux by blast

theorem deep_merge_idempotent_witness:
  "wf_yaml (Mapping example_override) \<and>
   deep_merge (deep_merge example_base example_override) example_override =
     deep_merge example_base example_override"
proof -
  have h: "wf_yaml (Mapping example_override)" by (simp add: example_override_def)
  from deep_merge_idempotent [OF h] h show ?thesis by blast
qed

lemma wf_yaml_get: "wf_yaml (Mapping m) \<Longrightarrow> dict_get m k = Some v \<Longrightarrow> wf_yaml v"
  by (rule wf_yaml_member [OF _ dict_get_mem])

lemma get_path_Cons_Some:
  "get_path (Mapping m) (k # ks) = Some v \<Longrightarrow> \<exists>w. dict_get m k = Some w \<and> get_path w ks = Some v"
  by (cases "dict_get m k") simp_all

lemma get_path_merge_both:
  "wf_yaml (Mapping b) \<Longrightarrow> get_path (Mapping a) p = Some (Mapping am) \<Longrightarrow>
   get_path (Mapping b) p = Some (Mapping bm) \<Longrightarrow>
   get_path (Mapping (deep_merge a b)) p = Some (Mapping (deep_merge am bm))"
proof (induction p arbitrary: a b)
  case Nil
  then show ?case by simp
next
  case (Cons k ks)
  from get_path_Cons_Some [OF Cons.prems(2)]
  obtain va where va: "dict_get a k = Some va" "get_path va ks = Some (Mapping am)" by blast
  from get_path_Cons_Some [OF Cons.prems(3)]
  obtain vb where vb: "dict_get b k = Some vb" "get_path vb ks = Some (Mapping bm)" by blast
  from Cons.prems(1) have dist: "distinct (map fst b)" by simp
  have wfb: "wf_yaml vb" using Cons.prems(1) vb(1) by (rule wf_yaml_get)
  have res: "dict_get (deep_merge a b) k = Some (combine (Some va) vb)"
    by (simp add: dict_get_deep_merge [OF dist] vb(1) va(1))
  show ?case
  proof (cases ks)
    case Nil
    with va(2) vb(2) show ?thesis by (simp add: res)
  next
    case ks: (Cons k' ks')
    from va(2) obtain a' where a': "va = Mapping a'" unfolding ks by (cases va) simp_all
    from vb(2) obtain b' where b': "vb = Mapping b'" unfolding ks by (cases vb) simp_all
    have "get_path (Mapping (deep_merge a' b')) ks = Some (Mapping (deep_merge am bm))"
    proof (rule Cons.IH)
      show "wf_yaml (Mapping b')" using wfb b' by simp
      show "get_path (Mapping a') ks = Some (Mapping am)" using va(2) a' by simp
      show "get_path (Mapping b') ks = Some (Mapping bm)" using vb(2) b' by simp
    qed
    then show ?thesis by (simp add: res a' b')
  qed
qed

lemma get_path_merge_override:
  "wf_yaml (Mapping b) \<Longrightarrow> get_path (Mapping b) p = Some v \<Longrightarrow>
   \<not> is_dict v \<or> get_path (Mapping a) p = None \<or>
     (\<exists>u. get_path (Mapping a) p = Some u \<and> \<not> is_dict u) \<Longrightarrow>
   get_path (Mapping (deep_merge a b)) p = Some v"
proof (induction p arbitrary: a b)
  case Nil
  then show ?case by auto
next
  case (Cons k ks)
  from get_path_Cons_Some [OF Cons.prems(2)]
  obtain vb where vb: "dict_get b k = Some vb" "get_path vb ks = Some v" by blast
  from Cons.prems(1) have dist: "distinct (map fst b)" by simp
  have wfb: "wf_yaml vb" using Cons.prems(1) vb(1) by (rule wf_yaml_get)
  have res: "dict_get (deep_merge a b) k = Some (combine (dict_get a k) vb)"
    by (simp add: dict_get_deep_merge [OF dist] vb(1))
  show ?case
  proof (cases "\<exists>a' b'. dict_get a k = Some (Mapping a') \<and> vb = Mapping b'")
    case True
    then obtain a' b' where ab: "dict_get a k = Some (Mapping a')" "vb = Mapping b'" by blast
    have "get_path (Mapping (deep_merge a' b')) ks = Some v"
    proof (rule Cons.IH)
      show "wf_yaml (Mapping b')" using wfb ab by simp
      show "get_path (Mapping b') ks = Some v" using vb(2) ab by simp
      show "\<not> is_dict v \<or> get_path (Mapping a') ks = None \<or>
            (\<exists>u. get_path (Mapping a') ks = Some u \<and> \<not> is_dict u)"
        using Cons.prems(3) ab(1) by simp
    qed
    then show ?thesis by (simp add: res ab)
  next
    case False
    have "combine (dict_get a k) vb = vb"
    proof (cases "dict_get a k")
      case None
      then show ?thesis by simp
    next
      case (Some va)
      with False show ?thesis by (cases va; cases vb) simp_all
    qed
    then show ?thesis by (simp add: res vb(2))
  qed
qed

lemma get_path_append:
  "get_path x (q @ r) = (case get_path x q of None \<Rightarrow> None | Some w \<Rightarrow> get_path w r)"
proof (induction q arbitrary: x)
  case Nil
  then show ?case by simp
next
  case (Cons k q)
  show ?case
  proof (cases x)
    case (Mapping m)
    then show ?thesis by (cases "dict_get m k") (simp_all add: Cons.IH)
  qed simp_all
qed

lemma get_path_non_dict: "\<not> is_dict w \<Longrightarrow> r \<noteq> [] \<Longrightarrow> get_path w r = None"
  by (cases w; cases r) simp_all

lemma wf_yaml_get_path: "wf_yaml x \<Longrightarrow> get_path x p = Some w \<Longrightarrow> wf_yaml w"
proof (induction p arbitrary: x)
  case Nil
  then show ?case by simp
next
  case (Cons k p)
  from Cons.prems(2) obtain m where m: "x = Mapping m" by (cases x) simp_all
  from get_path_Cons_Some [OF Cons.prems(2) [unfolded m]]
  obtain y where y: "dict_get m k = Some y" "get_path y p = Some w" by blast
  have "wf_yaml y" using Cons.prems(1) y(1) unfolding m by (rule wf_yaml_get)
  then show ?case using y(2) by (rule Cons.IH)
qed

lemma keys_deep_merge:
  "distinct (map fst ov) \<Longrightarrow>
   dict_get (deep_merge b ov) k = None \<longleftrightarrow> dict_get b k = None \<and> dict_get ov k = None"
  by (simp add: dict_get_deep_merge split: option.splits)

lemma get_path_merge_base_only:
  "wf_yaml (Mapping b) \<Longrightarrow> get_path (Mapping b) p = None \<Longrightarrow>
   (\<And>q v. strict_prefix q p \<Longrightarrow> get_path (Mapping b) q = Some v \<Longrightarrow> is_dict v) \<Longrightarrow>
   get_path (Mapping (deep_merge a b)) p = get_path (Mapping a) p"
proof (induction p arbitrary: a b)
  case Nil
  then show ?case by simp
next
  case (Cons k ks)
  from Cons.prems(1) have dist: "distinct (map fst b)" by simp
  show ?case
  proof (cases "dict_get b k")
    case None
    then have "dict_get (deep_merge a b) k = dict_get a k"
      by (simp add: dict_get_deep_merge [OF dist])
    then show ?thesis by simp
  next
    case (Some vb)
    have res: "dict_get (deep_merge a b) k = Some (combine (dict_get a k) vb)"
      by (simp add: dict_get_deep_merge [OF dist] Some)
    have ks: "ks \<noteq> []" using Cons.prems(2) Some by (cases ks) simp_all
    then have "strict_prefix [k] (k # ks)" by (simp add: strict_prefix_def)
    moreover have "get_path (Mapping b) [k] = Some vb" using Some by simp
    ultimately have "is_dict vb" by (rule Cons.prems(3))
    then obtain b' where b': "vb = Mapping b'" by (cases vb) simp_all
    have wfb: "wf_yaml (Mapping b')" using Cons.prems(1) Some unfolding b' by (rule wf_yaml_get)
    have none: "get_path (Mapping b') ks = None" using Cons.prems(2) Some b' by simp
    show ?thesis
    proof (cases "\<exists>a'. dict_get a k = Some (Mapping a')")
      case True
      then obtain a' where a': "dict_get a k = Some (Mapping a')" by blast
      have "get_path (Mapping (deep_merge a' b')) ks = get_path (Mapping a') ks"
      proof (rule Cons.IH [OF wfb none])
        fix q v assume q: "strict_prefix q ks" "get_path (Mapping b') q = Some v"
        from q(1) have "strict_prefix (k # q) (k # ks)" by (simp add: strict_prefix_def)
        moreover have "get_path (Mapping b) (k # q) = Some v" using q(2) Some b' by simp
        ultimately show "is_dict v" by (rule Cons.prems(3))
      qed
      then show ?thesis by (simp add: res a' b')
    next
      case False
      have lhs: "combine (dict_get a k) (Mapping b') = Mapping b'"
      proof (cases "dict_get a k")
        case None
        then show ?thesis by simp
      next
        case (Some va)
        with False show ?thesis by (cases va) simp_all
      qed
      have "get_path (Mapping a) (k # ks) = None"
      proof (cases "dict_get a k")
        case None
        then show ?thesis by simp
      next
        case (Some va)
        with False have "\<not> is_dict va" by (cases va) simp_all
        then have "get_path va ks = None" using ks by (rule get_path_non_dict)
        with Some show ?thesis by simp
      qed
      then show ?thesis by (simp add: res lhs b' none)
    qed
  qed
qed

text \<open>
  Claim C2, for base and override dicts. At every path of keys: where the override holds
  a value that is not a dict, or a value at a path the base lacks, the merge holds the
  override's value; where both hold dicts, the merge holds their merge, whose keys are
  the keys of the one and of the other and no more; where the two values are not both
  dicts the override's value replaces the base's; a list of the override is taken
  whole. Where the override holds nothing at a path and only dicts above it, the merge
  holds what the base holds there, a value or nothing; below a value of the override
  that is not a dict the merge holds nothing. On two dicts the function raises nothing.
\<close>

theorem deep_merge_override_wins:
  assumes "wf_yaml (Mapping override)"
  shows
  "(get_path (Mapping override) p = Some v \<and> \<not> is_dict v \<longrightarrow>
      get_path (Mapping (deep_merge base override)) p = Some v) \<and>
   (get_path (Mapping override) p = Some v \<and> get_path (Mapping base) p = None \<longrightarrow>
      get_path (Mapping (deep_merge base override)) p = Some v) \<and>
   (get_path (Mapping base) p = Some (Mapping bm) \<and>
    get_path (Mapping override) p = Some (Mapping om) \<longrightarrow>
      get_path (Mapping (deep_merge base override)) p = Some (Mapping (deep_merge bm om)) \<and>
      (\<forall>k. dict_get (deep_merge bm om) k = None \<longleftrightarrow>
             dict_get bm k = None \<and> dict_get om k = None)) \<and>
   (get_path (Mapping base) p = Some u \<and> get_path (Mapping override) p = Some v \<and>
    \<not> (is_dict u \<and> is_dict v) \<longrightarrow>
      get_path (Mapping (deep_merge base override)) p = Some v) \<and>
   (get_path (Mapping override) p = Some (Seq xs) \<longrightarrow>
      get_path (Mapping (deep_merge base override)) p = Some (Seq xs)) \<and>
   (get_path (Mapping override) p = None \<and>
    (\<forall>q w. strict_prefix q p \<and> get_path (Mapping override) q = Some w \<longrightarrow> is_dict w) \<longrightarrow>
      get_path (Mapping (deep_merge base override)) p = get_path (Mapping base) p) \<and>
   (strict_prefix q p \<and> get_path (Mapping override) q = Some w \<and> \<not> is_dict w \<longrightarrow>
      get_path (Mapping (deep_merge base override)) p = None) \<and>
   deep_merge_any (Mapping base) (Mapping override) = Inr (Mapping (deep_merge base override))"
proof (intro conjI impI)
  note wf = assms
  note ov = get_path_merge_override [OF wf]
  show "get_path (Mapping (deep_merge base override)) p = Some v"
    if "get_path (Mapping override) p = Some v \<and> \<not> is_dict v"
    using that by (intro ov) simp_all
  show "get_path (Mapping (deep_merge base override)) p = Some v"
    if "get_path (Mapping override) p = Some v \<and> get_path (Mapping base) p = None"
    using that by (intro ov) simp_all
  show "get_path (Mapping (deep_merge base override)) p = Some (Mapping (deep_merge bm om))"
    if "get_path (Mapping base) p = Some (Mapping bm) \<and>
        get_path (Mapping override) p = Some (Mapping om)"
    using that by (intro get_path_merge_both [OF wf]) simp_all
  show "\<forall>k. dict_get (deep_merge bm om) k = None \<longleftrightarrow>
             dict_get bm k = None \<and> dict_get om k = None"
    if h: "get_path (Mapping base) p = Some (Mapping bm) \<and>
        get_path (Mapping override) p = Some (Mapping om)"
  proof -
    from h have "get_path (Mapping override) p = Some (Mapping om)" ..
    with wf have "wf_yaml (Mapping om)" by (rule wf_yaml_get_path)
    then have "distinct (map fst om)" by simp
    then show ?thesis by (simp add: keys_deep_merge)
  qed
  show "get_path (Mapping (deep_merge base override)) p = Some v"
    if "get_path (Mapping base) p = Some u \<and> get_path (Mapping override) p = Some v \<and>
        \<not> (is_dict u \<and> is_dict v)"
    using that by (intro ov) auto
  show "get_path (Mapping (deep_merge base override)) p = Some (Seq xs)"
    if "get_path (Mapping override) p = Some (Seq xs)"
    using that by (intro ov) simp_all
  show "get_path (Mapping (deep_merge base override)) p = get_path (Mapping base) p"
    if h: "get_path (Mapping override) p = None \<and>
      (\<forall>q w. strict_prefix q p \<and> get_path (Mapping override) q = Some w \<longrightarrow> is_dict w)"
  proof (rule get_path_merge_base_only [OF wf])
    show "get_path (Mapping override) p = None" using h ..
    show "is_dict w'" if "strict_prefix q' p" "get_path (Mapping override) q' = Some w'" for q' w'
      using h that by blast
  qed
  show "get_path (Mapping (deep_merge base override)) p = None"
    if h: "strict_prefix q p \<and> get_path (Mapping override) q = Some w \<and> \<not> is_dict w"
  proof -
    from h obtain r where r: "p = q @ r" "r \<noteq> []"
      by (auto simp: strict_prefix_def prefix_def)
    from h have "get_path (Mapping (deep_merge base override)) q = Some w"
      by (intro ov) simp_all
    moreover from h r(2) have "get_path w r = None" by (intro get_path_non_dict) simp_all
    ultimately show ?thesis unfolding r(1) get_path_append by simp
  qed
  show "deep_merge_any (Mapping base) (Mapping override) = Inr (Mapping (deep_merge base override))"
    by (simp add: deep_merge_any_def)
qed

theorem deep_merge_override_wins_witness:
  "wf_yaml (Mapping example_override) \<and>
   get_path (Mapping example_override) [''b''] = Some (Scalar (YInt 3)) \<and>
   get_path (Mapping (deep_merge example_base example_override)) [''b''] = Some (Scalar (YInt 3)) \<and>
   get_path (Mapping example_base) [''c'', ''new''] = None \<and>
   get_path (Mapping example_override) [''c'', ''new''] = Some (Scalar (YStr ''value'')) \<and>
   get_path (Mapping (deep_merge example_base example_override)) [''c'', ''new'']
     = Some (Scalar (YStr ''value'')) \<and>
   get_path (Mapping example_base) [''c''] = Some (Mapping [(''nested'', Scalar (YStr ''base''))]) \<and>
   get_path (Mapping example_override) [''c'']
     = Some (Mapping [(''nested'', Scalar (YStr ''override'')), (''new'', Scalar (YStr ''value''))]) \<and>
   get_path (Mapping (deep_merge example_base example_override)) [''c'']
     = Some (Mapping (deep_merge [(''nested'', Scalar (YStr ''base''))]
          [(''nested'', Scalar (YStr ''override'')), (''new'', Scalar (YStr ''value''))])) \<and>
   get_path (Mapping example_base) [''mode''] = Some (Scalar (YStr ''plain'')) \<and>
   get_path (Mapping example_override) [''mode''] = Some (Mapping [(''tls'', Scalar (YBool True))]) \<and>
   get_path (Mapping (deep_merge example_base example_override)) [''mode'']
     = Some (Mapping [(''tls'', Scalar (YBool True))]) \<and>
   get_path (Mapping example_override) [''hosts''] = Some (Seq [Scalar (YStr ''h3'')]) \<and>
   get_path (Mapping (deep_merge example_base example_override)) [''hosts'']
     = Some (Seq [Scalar (YStr ''h3'')]) \<and>
   get_path (Mapping example_override) [''a''] = None \<and>
   get_path (Mapping example_base) [''a''] = Some (Scalar (YInt 1)) \<and>
   get_path (Mapping (deep_merge example_base example_override)) [''a''] = Some (Scalar (YInt 1)) \<and>
   get_path (Mapping example_override) [''c'', ''old''] = None \<and>
   get_path (Mapping (deep_merge example_base example_override)) [''c'', ''old'']
     = get_path (Mapping example_base) [''c'', ''old''] \<and>
   strict_prefix [''b''] [''b'', ''x''] \<and>
   get_path (Mapping (deep_merge example_base example_override)) [''b'', ''x''] = None \<and>
   dict_get (deep_merge [(''nested'', Scalar (YStr ''base''))]
          [(''nested'', Scalar (YStr ''override'')), (''new'', Scalar (YStr ''value''))]) ''absent''
     = None \<and>
   deep_merge_any (Mapping example_base) (Mapping example_override)
     = Inr (Mapping (deep_merge example_base example_override))"
proof -
  have wf: "wf_yaml (Mapping example_override)" by (simp add: example_override_def)
  have b: "get_path (Mapping example_override) [''b''] = Some (Scalar (YInt 3))"
    by (simp add: example_override_def)
  have n1: "get_path (Mapping example_base) [''c'', ''new''] = None"
    by (simp add: example_base_def)
  have n2: "get_path (Mapping example_override) [''c'', ''new''] = Some (Scalar (YStr ''value''))"
    by (simp add: example_override_def)
  have c1: "get_path (Mapping example_base) [''c''] = Some (Mapping [(''nested'', Scalar (YStr ''base''))])"
    by (simp add: example_base_def)
  have c2: "get_path (Mapping example_override) [''c'']
     = Some (Mapping [(''nested'', Scalar (YStr ''override'')), (''new'', Scalar (YStr ''value''))])"
    by (simp add: example_override_def)
  have m1: "get_path (Mapping example_base) [''mode''] = Some (Scalar (YStr ''plain''))"
    by (simp add: example_base_def)
  have m2: "get_path (Mapping example_override) [''mode''] = Some (Mapping [(''tls'', Scalar (YBool True))])"
    by (simp add: example_override_def)
  have s: "get_path (Mapping example_override) [''hosts''] = Some (Seq [Scalar (YStr ''h3'')])"
    by (simp add: example_override_def)
  note t = deep_merge_override_wins [OF wf]
  have r1: "get_path (Mapping (deep_merge example_base example_override)) [''b''] = Some (Scalar (YInt 3))"
    using t [of "[''b'']" "Scalar (YInt 3)" example_base] b by simp
  have r2: "get_path (Mapping (deep_merge example_base example_override)) [''c'', ''new'']
     = Some (Scalar (YStr ''value''))"
    using t [of "[''c'', ''new'']" "Scalar (YStr ''value'')" example_base] n1 n2 by blast
  have r3: "get_path (Mapping (deep_merge example_base example_override)) [''c'']
     = Some (Mapping (deep_merge [(''nested'', Scalar (YStr ''base''))]
          [(''nested'', Scalar (YStr ''override'')), (''new'', Scalar (YStr ''value''))]))"
    using t [of "[''c'']" _ example_base] c1 c2 by blast
  have r4: "get_path (Mapping (deep_merge example_base example_override)) [''mode'']
     = Some (Mapping [(''tls'', Scalar (YBool True))])"
    using t [of "[''mode'']" "Mapping [(''tls'', Scalar (YBool True))]" example_base _ _
             "Scalar (YStr ''plain'')"] m1 m2 by simp
  have r5: "get_path (Mapping (deep_merge example_base example_override)) [''hosts'']
     = Some (Seq [Scalar (YStr ''h3'')])"
    using t [of "[''hosts'']" _ example_base] s by blast
  have r6: "deep_merge_any (Mapping example_base) (Mapping example_override)
     = Inr (Mapping (deep_merge example_base example_override))"
    using t [of "[]" _ example_base] by blast
  have a1: "get_path (Mapping example_override) [''a''] = None"
    by (simp add: example_override_def)
  have a2: "get_path (Mapping example_base) [''a''] = Some (Scalar (YInt 1))"
    by (simp add: example_base_def)
  have pa: "\<forall>q w. strict_prefix q [''a''] \<and> get_path (Mapping example_override) q = Some w
      \<longrightarrow> is_dict w"
    by (auto simp: strict_prefix_def prefix_Cons)
  have r7: "get_path (Mapping (deep_merge example_base example_override)) [''a''] = Some (Scalar (YInt 1))"
    using t [of "[''a'']" _ example_base] a1 a2 pa by simp
  have o1: "get_path (Mapping example_override) [''c'', ''old''] = None"
    by (simp add: example_override_def)
  have po: "\<forall>q w. strict_prefix q [''c'', ''old''] \<and> get_path (Mapping example_override) q = Some w
      \<longrightarrow> is_dict w"
  proof (intro allI impI)
    fix q w assume h: "strict_prefix q [''c'', ''old''] \<and> get_path (Mapping example_override) q = Some w"
    then have "q = [] \<or> q = [''c'']" by (auto simp: strict_prefix_def prefix_Cons)
    with h show "is_dict w" by (auto simp: example_override_def)
  qed
  have r8: "get_path (Mapping (deep_merge example_base example_override)) [''c'', ''old'']
     = get_path (Mapping example_base) [''c'', ''old'']"
    using t [of "[''c'', ''old'']" _ example_base] o1 po by blast
  have sp: "strict_prefix [''b''] [''b'', ''x'']" by (simp add: strict_prefix_def)
  have r9: "get_path (Mapping (deep_merge example_base example_override)) [''b'', ''x''] = None"
    using t [of "[''b'', ''x'']" _ example_base _ _ _ _ "[''b'']" "Scalar (YInt 3)"] sp b by simp
  have r10: "dict_get (deep_merge [(''nested'', Scalar (YStr ''base''))]
          [(''nested'', Scalar (YStr ''override'')), (''new'', Scalar (YStr ''value''))]) ''absent''
     = None"
    using t [of "[''c'']" _ example_base "[(''nested'', Scalar (YStr ''base''))]"
          "[(''nested'', Scalar (YStr ''override'')), (''new'', Scalar (YStr ''value''))]"] c1 c2
    by simp
  from wf b n1 n2 c1 c2 m1 m2 s r1 r2 r3 r4 r5 a1 a2 r7 o1 r8 sp r9 r10 r6
  show ?thesis by (intro conjI)
qed

text \<open>
  Claim C2 as it is worded covers every structured value. An override that is a list
  holds a value that is not a dict at the empty path, and the function does not return
  it: \<^verbatim>\<open>override.items()\<close> raises.
\<close>

theorem deep_merge_non_mapping_counterexample:
  "get_path (Seq [Scalar (YInt 1)]) [] = Some (Seq [Scalar (YInt 1)]) \<and>
   \<not> is_dict (Seq [Scalar (YInt 1)]) \<and>
   deep_merge_any (Mapping [(''a'', Scalar (YInt 1))]) (Seq [Scalar (YInt 1)]) = Inl AttributeError \<and>
   deep_merge_any (Mapping [(''a'', Scalar (YInt 1))]) (Seq [Scalar (YInt 1)])
     \<noteq> Inr (Seq [Scalar (YInt 1)])"
  by (simp add: deep_merge_any_def)

section \<open>Properties of discovery\<close>

lemma join_slash_append:
  "cs \<noteq> [] \<Longrightarrow> ds \<noteq> [] \<Longrightarrow> join_slash (cs @ ds) = join_slash cs @ ''/'' @ join_slash ds"
  by (induction cs rule: join_slash.induct) (auto simp: neq_Nil_conv)

lemma prefix_join_slash: "prefix (join_slash cs) (join_slash (cs @ ds))"
proof (cases "cs = [] \<or> ds = []")
  case True
  then show ?thesis by auto
next
  case False
  then show ?thesis by (simp add: join_slash_append)
qed

lemma prefix_str_path:
  assumes "is_absolute b" and "prefix b t"
  shows "prefix (str_path b) (str_path t)"
proof -
  from assms(1) obtain a cs where b: "b = a # cs" and a: "a = ''/'' \<or> a = ''//''"
    by (auto simp: is_absolute_def split: list.splits)
  from assms(2) b obtain ds where t: "t = a # (cs @ ds)" by (auto simp: prefix_def)
  show ?thesis using a prefix_join_slash [of cs ds] by (auto simp: str_path_def b t)
qed

lemma in_scope_iff_prefix:
  "(length rp = 0 \<or> (length rp \<le> length tp \<and> rp = take (length rp) tp)) \<longleftrightarrow> prefix rp tp"
proof
  assume "length rp = 0 \<or> (length rp \<le> length tp \<and> rp = take (length rp) tp)"
  then show "prefix rp tp"
  proof
    assume "length rp = 0" then show ?thesis by simp
  next
    assume "length rp \<le> length tp \<and> rp = take (length rp) tp"
    then have "rp = take (length rp) tp" ..
    then show ?thesis by (metis take_is_prefix)
  qed
next
  assume "prefix rp tp"
  then obtain zs where "tp = rp @ zs" by (auto simp: prefix_def)
  then show "length rp = 0 \<or> (length rp \<le> length tp \<and> rp = take (length rp) tp)" by simp
qed

lemma walk_roots:
  "(root, ds, fs) \<in> set (walk rp0 d) \<longleftrightarrow>
     (\<exists>rel d'. root = rp0 @ rel \<and> d' \<in> set (dirs_at d rel) \<and>
               ds = map fst (subdirs d') \<and> fs = files d')"
proof (induction rp0 d arbitrary: root ds fs rule: walk.induct)
  case (1 rp0 fs0 subs)
  show ?case
  proof
    assume "(root, ds, fs) \<in> set (walk rp0 (Dir fs0 subs))"
    then consider "(root, ds, fs) = (rp0, map fst subs, fs0)"
      | name sub where "(name, sub) \<in> set subs" "(root, ds, fs) \<in> set (walk (rp0 @ [name]) sub)"
      by auto
    then show "\<exists>rel d'. root = rp0 @ rel \<and> d' \<in> set (dirs_at (Dir fs0 subs) rel) \<and>
               ds = map fst (subdirs d') \<and> fs = files d'"
    proof cases
      case 1
      then have "root = rp0 @ [] \<and> Dir fs0 subs \<in> set (dirs_at (Dir fs0 subs) []) \<and>
         ds = map fst (subdirs (Dir fs0 subs)) \<and> fs = files (Dir fs0 subs)" by simp
      then show ?thesis by blast
    next
      case 2
      from "1.IH" [OF 2(1) refl] 2(2)
      obtain rel d' where r: "root = (rp0 @ [name]) @ rel" "d' \<in> set (dirs_at sub rel)"
        "ds = map fst (subdirs d')" "fs = files d'" by blast
      have "d' \<in> set (dirs_at (Dir fs0 subs) (name # rel))"
        using 2(1) r(2) by (auto intro!: bexI [of _ "(name, sub)"])
      with r show ?thesis by (intro exI [of _ "name # rel"] exI [of _ d']) simp
    qed
  next
    assume "\<exists>rel d'. root = rp0 @ rel \<and> d' \<in> set (dirs_at (Dir fs0 subs) rel) \<and>
               ds = map fst (subdirs d') \<and> fs = files d'"
    then obtain rel d' where r: "root = rp0 @ rel" "d' \<in> set (dirs_at (Dir fs0 subs) rel)"
        "ds = map fst (subdirs d')" "fs = files d'" by blast
    show "(root, ds, fs) \<in> set (walk rp0 (Dir fs0 subs))"
    proof (cases rel)
      case Nil
      with r show ?thesis by simp
    next
      case (Cons n rel')
      with r(2) obtain name sub where s: "(name, sub) \<in> set subs" "name = n"
          "d' \<in> set (dirs_at sub rel')"
        by (auto split: if_splits)
      have "(root, ds, fs) \<in> set (walk (rp0 @ [name]) sub)"
        unfolding "1.IH" [OF s(1) refl] using r s Cons by auto
      with s(1) show ?thesis by (auto intro!: bexI [of _ "(name, sub)"])
    qed
  qed
qed

lemma collect_yaml_Cons:
  assumes "prefix b root"
  shows "collect_yaml b tp ((root, ds, fs) # ws) acc =
     collect_yaml b tp ws
       (if prefix (drop (length b) root) tp
        then acc @ map (\<lambda>file. root @ [file]) (filter is_yaml_name fs) else acc)"
proof -
  define rp where "rp = drop (length b) root"
  have R: "relative_to root b = Inr rp" by (simp add: relative_to_def assms rp_def)
  have c: "(length rp = 0 \<or> (length rp \<le> length tp \<and> rp = take (length rp) tp)) = prefix rp tp"
    by (rule in_scope_iff_prefix)
  have "collect_yaml b tp ((root, ds, fs) # ws) acc =
     (if prefix rp tp
      then collect_yaml b tp ws (acc @ map (\<lambda>file. root @ [file]) (filter is_yaml_name fs))
      else collect_yaml b tp ws acc)"
    unfolding collect_yaml.simps R sum.case c ..
  then show ?thesis by (simp add: rp_def)
qed

lemma collect_yaml_eq:
  "(\<And>root ds fs. (root, ds, fs) \<in> set ws \<Longrightarrow> prefix b root) \<Longrightarrow>
   collect_yaml b tp ws acc =
     Inr (acc @ concat (map (\<lambda>(root, ds, fs).
            if prefix (drop (length b) root) tp
            then map (\<lambda>file. root @ [file]) (filter is_yaml_name fs) else []) ws))"
proof (induction ws arbitrary: acc)
  case Nil
  then show ?case by simp
next
  case (Cons w ws)
  obtain root ds fs where w: "w = (root, ds, fs)" by (cases w)
  have pre: "prefix b root" using Cons.prems [of root ds fs] w by simp
  have IH: "\<And>acc. collect_yaml b tp ws acc =
     Inr (acc @ concat (map (\<lambda>(root, ds, fs).
            if prefix (drop (length b) root) tp
            then map (\<lambda>file. root @ [file]) (filter is_yaml_name fs) else []) ws))"
    by (rule Cons.IH) (use Cons.prems in auto)
  show ?case
    unfolding w collect_yaml_Cons [OF pre] IH by simp
qed

text \<open>
  Claim C3. When the resolved target is the resolved base or below it, discovery returns
  exactly the files whose name ends in \<^verbatim>\<open>.yaml\<close> or \<^verbatim>\<open>.yml\<close> and that lie
  immediately in a directory of the base's tree whose components relative to the base
  are a prefix of the target's (the empty sequence for the base itself); no returned
  file lies in a directory off the path to the target.
\<close>

theorem discovery_exact:
  assumes "is_absolute (resolve e base)"
    and "prefix (resolve e base) (resolve e target)"
  shows "\<exists>found. find_yaml_files_in_hierarchy e base target = Inr found \<and>
     set found =
       {resolve e base @ rel @ [file] | rel file d root.
          tree_at e (resolve e base) = Some root \<and>
          prefix rel (drop (length (resolve e base)) (resolve e target)) \<and>
          d \<in> set (dirs_at root rel) \<and> file \<in> set (files d) \<and> is_yaml_name file} \<and>
     (\<forall>p \<in> set found. prefix (butlast p) (resolve e target))"
proof -
  define b where "b = resolve e base"
  define t where "t = resolve e target"
  define tp where "tp = drop (length b) t"
  define ws where "ws = os_walk e b"
  define F where "F = (\<lambda>(root :: path, ds :: string list, fs).
            if prefix (drop (length b) root) tp
            then map (\<lambda>file. root @ [file]) (filter is_yaml_name fs) else [])"
  define found where "found = concat (map F ws)"
  have bt: "prefix b t" using assms(2) by (simp add: b_def t_def)
  have t: "t = b @ tp" using bt by (auto simp: tp_def prefix_def)
  have sp: "prefix (str_path b) (str_path t)"
    using assms(1) bt unfolding b_def t_def by (rule prefix_str_path)
  have ws_iff: "(root, ds, fs) \<in> set ws \<longleftrightarrow>
     (\<exists>rel d' tree. tree_at e b = Some tree \<and> root = b @ rel \<and> d' \<in> set (dirs_at tree rel) \<and>
        ds = map fst (subdirs d') \<and> fs = files d')" for root ds fs
  proof (cases "tree_at e b")
    case None
    then show ?thesis by (simp add: ws_def os_walk_def)
  next
    case (Some tree)
    then show ?thesis by (simp add: ws_def os_walk_def walk_roots)
  qed
  have pre: "prefix b root" if "(root, ds, fs) \<in> set ws" for root ds fs
  proof -
    from that obtain rel where "root = b @ rel" unfolding ws_iff by blast
    then show ?thesis by simp
  qed
  have coll: "collect_yaml b tp ws [] = Inr found"
    unfolding found_def F_def by (subst collect_yaml_eq [OF pre]) simp_all
  have res: "find_yaml_files_in_hierarchy e base target = Inr found"
    unfolding find_yaml_files_in_hierarchy_def Let_def b_def [symmetric] t_def [symmetric]
    using sp bt coll by (simp add: relative_to_def tp_def ws_def)
  have mem: "p \<in> set found \<longleftrightarrow> (\<exists>root ds fs nm. (root, ds, fs) \<in> set ws \<and>
       prefix (drop (length b) root) tp \<and> nm \<in> set fs \<and> is_yaml_name nm \<and> p = root @ [nm])" for p
    proof -
    have Fm: "p \<in> set (F (root, ds, fs)) \<longleftrightarrow>
        (prefix (drop (length b) root) tp \<and>
         (\<exists>nm. nm \<in> set fs \<and> is_yaml_name nm \<and> p = root @ [nm]))" for root ds fs
      by (auto simp: F_def)
    have "p \<in> set found \<longleftrightarrow> (\<exists>w \<in> set ws. p \<in> set (F w))"
      by (simp add: found_def)
    also have "\<dots> \<longleftrightarrow> (\<exists>root ds fs. (root, ds, fs) \<in> set ws \<and> p \<in> set (F (root, ds, fs)))"
      by (simp add: Bex_def split_paired_Ex)
    finally show ?thesis unfolding Fm by blast
  qed
  have set_found: "set found = {b @ rel @ [file] | rel file d root.
          tree_at e b = Some root \<and> prefix rel tp \<and>
          d \<in> set (dirs_at root rel) \<and> file \<in> set (files d) \<and> is_yaml_name file}"
    (is "_ = ?S")
  proof (intro set_eqI iffI)
    fix p assume "p \<in> set found"
    then obtain root ds fs nm where w: "(root, ds, fs) \<in> set ws"
      and pr: "prefix (drop (length b) root) tp"
      and f: "nm \<in> set fs" "is_yaml_name nm" and p: "p = root @ [nm]"
      unfolding mem by blast
    from w obtain rel d' tree where r: "tree_at e b = Some tree" "root = b @ rel"
      "d' \<in> set (dirs_at tree rel)" "fs = files d'" unfolding ws_iff by blast
    from pr r(2) have "prefix rel tp" by simp
    moreover have "p = b @ rel @ [nm]" using r(2) p by simp
    ultimately show "p \<in> ?S" using r(1,3,4) f by blast
  next
    fix p assume "p \<in> ?S"
    then obtain rel nm d root where r: "p = b @ rel @ [nm]" "tree_at e b = Some root"
      "prefix rel tp" "d \<in> set (dirs_at root rel)" "nm \<in> set (files d)" "is_yaml_name nm"
      by blast
    have w: "(b @ rel, map fst (subdirs d), files d) \<in> set ws"
      unfolding ws_iff using r by blast
    show "p \<in> set found"
      unfolding mem using w r by (intro exI [of _ "b @ rel"] exI [of _ "map fst (subdirs d)"] exI [of _ "files d"] exI [of _ nm]) simp
  qed
  have sib: "\<forall>p \<in> set found. prefix (butlast p) t"
    proof
    fix p assume "p \<in> set found"
    then obtain rel nm where "p = b @ rel @ [nm]" "prefix rel tp" unfolding set_found by blast
    then show "prefix (butlast p) t" unfolding t by (simp add: butlast_append)
  qed
  show ?thesis
    using res set_found sib unfolding b_def t_def tp_def by blast
qed

theorem discovery_exact_witness:
  "is_absolute (resolve example_env [''/'', ''aaa'']) \<and>
   prefix (resolve example_env [''/'', ''aaa'']) (resolve example_env [''/'', ''aaa'', ''a'', ''a'', ''b'']) \<and>
   (\<exists>found. find_yaml_files_in_hierarchy example_env [''/'', ''aaa''] [''/'', ''aaa'', ''a'', ''a'', ''b'']
        = Inr found \<and>
      set found =
       {resolve example_env [''/'', ''aaa''] @ rel @ [file] | rel file d root.
          tree_at example_env (resolve example_env [''/'', ''aaa'']) = Some root \<and>
          prefix rel (drop (length (resolve example_env [''/'', ''aaa'']))
                        (resolve example_env [''/'', ''aaa'', ''a'', ''a'', ''b''])) \<and>
          d \<in> set (dirs_at root rel) \<and> file \<in> set (files d) \<and> is_yaml_name file} \<and>
      (\<forall>p \<in> set found. prefix (butlast p) (resolve example_env [''/'', ''aaa'', ''a'', ''a'', ''b''])))"
proof -
  have h1: "is_absolute (resolve example_env [''/'', ''aaa''])"
    by (simp add: example_env_def is_absolute_def)
  have h2: "prefix (resolve example_env [''/'', ''aaa''])
              (resolve example_env [''/'', ''aaa'', ''a'', ''a'', ''b''])"
    by (simp add: example_env_def)
  from discovery_exact [OF h1 h2] h1 h2 show ?thesis by (intro conjI)
qed

text \<open>
  Claim C1. A target that shares only a string prefix with the base, and is no descendant
  of it by components, is to be rejected with the invalid-target error, the check being
  on path components. The guard of the module is \<^verbatim>\<open>str(target).startswith(str(base))\<close>:
  for base \<^verbatim>\<open>/aaa\<close> and target \<^verbatim>\<open>/aaab/x\<close> it does not fire. The call still fails, one
  line later, with the \<^verbatim>\<open>ValueError\<close> that \<^verbatim>\<open>relative_to\<close> raises, which is not the
  module's error \<^verbatim>\<open>Target path ... is not within base directory ...\<close>.
\<close>

theorem string_prefix_target_not_rejected_by_guard:
  "str_path [''/'', ''aaa''] = ''/aaa'' \<and> str_path [''/'', ''aaab'', ''x''] = ''/aaab/x'' \<and>
   \<not> prefix [''/'', ''aaa''] [''/'', ''aaab'', ''x''] \<and>
   find_yaml_files_in_hierarchy \<lparr> resolve = (\<lambda>p. p), tree_at = t, load = l \<rparr>
       [''/'', ''aaa''] [''/'', ''aaab'', ''x'']
     = Inl (ValueError (Not_in_subpath [''/'', ''aaab'', ''x''] [''/'', ''aaa''])) \<and>
   find_yaml_files_in_hierarchy \<lparr> resolve = (\<lambda>p. p), tree_at = t, load = l \<rparr>
       [''/'', ''aaa''] [''/'', ''aaab'', ''x'']
     \<noteq> Inl (ValueError (Message ''Target path /aaab/x is not within base directory /aaa''))"
  by (simp add: find_yaml_files_in_hierarchy_def str_path_def relative_to_def)

lemma example_discovery:
  "find_yaml_files_in_hierarchy example_env [''/'', ''aaa''] [''/'', ''aaa'', ''a'', ''a'', ''b''] =
     Inr [[''/'', ''aaa'', ''config.yaml''], [''/'', ''aaa'', ''a'', ''config.yml''],
          [''/'', ''aaa'', ''a'', ''a'', ''b'', ''config.yaml'']]"
  by (simp add: find_yaml_files_in_hierarchy_def example_env_def example_tree_def str_path_def
        relative_to_def os_walk_def is_yaml_name_def suffix_def)

lemma target_outside_base_fails:
  "\<not> prefix (resolve e base) (resolve e target) \<Longrightarrow>
   \<exists>ve. find_yaml_files_in_hierarchy e base target = Inl (ValueError ve)"
  by (simp add: find_yaml_files_in_hierarchy_def Let_def relative_to_def)

section \<open>Properties of parsing and of the entry point\<close>

lemma parse_loop_fail:
  "\<forall>f \<in> set ok. \<not> isl (load e f) \<Longrightarrow> load e bad = Inl cause \<Longrightarrow>
   parse_loop e (ok @ bad # rest) acc =
     Inl (Exception (''Failed to parse '' @ str_path bad @ '': '' @ cause))"
proof (induction ok arbitrary: acc)
  case Nil
  then show ?case by simp
next
  case (Cons f ok)
  from Cons.prems(1) obtain doc where "load e f = Inr doc" by (cases "load e f") auto
  then show ?case using Cons by simp
qed

text \<open>
  Claim C6. When some file of the list cannot be loaded, parsing raises an exception
  that names the first such file and the cause, returns no mapping, and
  \<^verbatim>\<open>merge_hierarchical_configs\<close> on a hierarchy whose discovered files these are fails
  with the same exception.
\<close>

theorem parse_failure_aborts:
  assumes "\<exists>f \<in> set yaml_files. isl (load e f)"
  shows "\<exists>ok bad rest cause.
     yaml_files = ok @ bad # rest \<and> (\<forall>f \<in> set ok. \<not> isl (load e f)) \<and>
     load e bad = Inl cause \<and>
     parse_yaml_configs e yaml_files =
       Inl (Exception (''Failed to parse '' @ str_path bad @ '': '' @ cause)) \<and>
     (find_yaml_files_in_hierarchy e base target = Inr yaml_files \<longrightarrow>
      merge_hierarchical_configs e base target =
       Inl (Exception (''Failed to parse '' @ str_path bad @ '': '' @ cause)))"
proof -
  from split_list_first_prop [OF assms]
  obtain ok bad rest where d: "yaml_files = ok @ bad # rest" "isl (load e bad)"
    "\<forall>f \<in> set ok. \<not> isl (load e f)" by blast
  from d(2) obtain cause where c: "load e bad = Inl cause" by (cases "load e bad") auto
  have p: "parse_yaml_configs e yaml_files =
       Inl (Exception (''Failed to parse '' @ str_path bad @ '': '' @ cause))"
    unfolding parse_yaml_configs_def d(1) using d(3) c by (rule parse_loop_fail)
  have ne: "yaml_files \<noteq> []" using d(1) by simp
  have m: "merge_hierarchical_configs e base target =
       Inl (Exception (''Failed to parse '' @ str_path bad @ '': '' @ cause))"
    if "find_yaml_files_in_hierarchy e base target = Inr yaml_files"
    unfolding merge_hierarchical_configs_def that using ne p by simp
  from d(1) d(3) c p m show ?thesis by blast
qed

theorem parse_failure_aborts_witness:
  "(\<exists>f \<in> set [[''/'', ''aaa'', ''config.yaml''], [''/'', ''aaa'', ''a'', ''config.yml''],
                 [''/'', ''aaa'', ''a'', ''c'', ''b'', ''config.yaml'']]. isl (load example_env f)) \<and>
   find_yaml_files_in_hierarchy example_env [''/'', ''aaa''] [''/'', ''aaa'', ''a'', ''c'', ''b''] =
     Inr [[''/'', ''aaa'', ''config.yaml''], [''/'', ''aaa'', ''a'', ''config.yml''],
          [''/'', ''aaa'', ''a'', ''c'', ''b'', ''config.yaml'']] \<and>
   (\<exists>ok bad rest cause.
     [[''/'', ''aaa'', ''config.yaml''], [''/'', ''aaa'', ''a'', ''config.yml''],
      [''/'', ''aaa'', ''a'', ''c'', ''b'', ''config.yaml'']] = ok @ bad # rest \<and>
     (\<forall>f \<in> set ok. \<not> isl (load example_env f)) \<and>
     load example_env bad = Inl cause \<and>
     parse_yaml_configs example_env
       [[''/'', ''aaa'', ''config.yaml''], [''/'', ''aaa'', ''a'', ''config.yml''],
        [''/'', ''aaa'', ''a'', ''c'', ''b'', ''config.yaml'']] =
       Inl (Exception (''Failed to parse '' @ str_path bad @ '': '' @ cause)) \<and>
     merge_hierarchical_configs example_env [''/'', ''aaa''] [''/'', ''aaa'', ''a'', ''c'', ''b''] =
       Inl (Exception (''Failed to parse '' @ str_path bad @ '': '' @ cause)))"
proof -
  let ?fs = "[[''/'', ''aaa'', ''config.yaml''], [''/'', ''aaa'', ''a'', ''config.yml''],
              [''/'', ''aaa'', ''a'', ''c'', ''b'', ''config.yaml'']]"
  have h1: "\<exists>f \<in> set ?fs. isl (load example_env f)"
    by (simp add: example_env_def example_load_def)
  have h2: "find_yaml_files_in_hierarchy example_env [''/'', ''aaa''] [''/'', ''aaa'', ''a'', ''c'', ''b'']
      = Inr ?fs"
    by (simp add: find_yaml_files_in_hierarchy_def example_env_def example_tree_def str_path_def
          relative_to_def os_walk_def is_yaml_name_def suffix_def)
  from parse_failure_aborts [OF h1, of "[''/'', ''aaa'']" "[''/'', ''aaa'', ''a'', ''c'', ''b'']"] h1 h2
  show ?thesis by blast
qed

text \<open>
  Claim C7. When discovery returns no file, \<^verbatim>\<open>merge_hierarchical_configs\<close> returns the
  empty mapping and the single diagnostic
  \<^verbatim>\<open>No YAML files found in hierarchy from {base_dir} to {target_path}\<close>, formatted from
  its two arguments, and raises nothing.
\<close>

theorem no_files_diagnostic:
  "find_yaml_files_in_hierarchy e base_dir target_path = Inr [] \<Longrightarrow>
   merge_hierarchical_configs e base_dir target_path =
     Inr ([], [''No YAML files found in hierarchy from '' @ str_path base_dir @
               '' to '' @ str_path target_path])"
  by (simp add: merge_hierarchical_configs_def)

theorem no_files_diagnostic_witness:
  "find_yaml_files_in_hierarchy example_env [''/'', ''empty''] [''/'', ''empty'', ''subdir''] = Inr [] \<and>
   merge_hierarchical_configs example_env [''/'', ''empty''] [''/'', ''empty'', ''subdir''] =
     Inr ([], [''No YAML files found in hierarchy from /empty to /empty/subdir''])"
proof -
  have h: "find_yaml_files_in_hierarchy example_env [''/'', ''empty''] [''/'', ''empty'', ''subdir''] = Inr []"
    by (simp add: find_yaml_files_in_hierarchy_def example_env_def str_path_def
          relative_to_def os_walk_def is_yaml_name_def suffix_def)
  from no_files_diagnostic [OF h] h show ?thesis by (simp add: str_path_def)
qed

lemma parse_loop_records:
  "parse_loop e fs acc = Inr configs \<Longrightarrow>
   \<forall>g \<in> set fs. str_path g = s \<longrightarrow> load e g = Inr doc \<Longrightarrow>
   dict_get acc s = Some (if truthy doc then doc else Mapping []) \<or> (\<exists>g \<in> set fs. str_path g = s) \<Longrightarrow>
   dict_get configs s = Some (if truthy doc then doc else Mapping [])"
proof (induction fs arbitrary: acc)
  case Nil
  then show ?case by simp
next
  case (Cons g fs)
  from Cons.prems(1) obtain d where d: "load e g = Inr d" by (cases "load e g") simp_all
  let ?acc = "dict_set acc (str_path g) (if truthy d then d else Mapping [])"
  from Cons.prems(1) d have run: "parse_loop e fs ?acc = Inr configs" by simp
  have all: "\<forall>g \<in> set fs. str_path g = s \<longrightarrow> load e g = Inr doc" using Cons.prems(2) by simp
  show ?case
  proof (cases "str_path g = s")
    case True
    with Cons.prems(2) d have "d = doc" by simp
    with True have "dict_get ?acc s = Some (if truthy doc then doc else Mapping [])"
      by (simp add: dict_get_set)
    then show ?thesis using Cons.IH [OF run all] by blast
  next
    case False
    then have "dict_get ?acc s = dict_get acc s" by (auto simp: dict_get_set)
    moreover from False Cons.prems(3)
    have "dict_get acc s = Some (if truthy doc then doc else Mapping []) \<or> (\<exists>g \<in> set fs. str_path g = s)"
      by auto
    ultimately show ?thesis using Cons.IH [OF run all] by simp
  qed
qed

lemma falsy_cases:
  "\<not> truthy doc \<longleftrightarrow>
     doc \<in> {Scalar YNull, Scalar (YBool False), Scalar (YInt 0), Scalar (YStr []), Seq [], Mapping []}"
proof (cases doc)
  case (Scalar s)
  then show ?thesis by (cases s) auto
qed auto

text \<open>
  Claim C10. A document that is null, false, 0, the empty string, the empty list or the
  empty dict is false in Python, and what is recorded for its file is the empty dict,
  not the document. The files of the list that have the path string of the file in
  question are taken to be that file: they load the same document.
\<close>

theorem falsy_document_recorded_as_empty_mapping:
  assumes "parse_yaml_configs e yaml_files = Inr configs"
    and "f \<in> set yaml_files"
    and "\<forall>g \<in> set yaml_files. str_path g = str_path f \<longrightarrow> load e g = load e f"
    and "load e f = Inr doc"
    and "doc \<in> {Scalar YNull, Scalar (YBool False), Scalar (YInt 0), Scalar (YStr []), Seq [], Mapping []}"
  shows "\<not> truthy doc \<and> dict_get configs (str_path f) = Some (Mapping [])"
proof -
  have falsy: "\<not> truthy doc" using assms(5) by (simp add: falsy_cases)
  have "dict_get configs (str_path f) = Some (if truthy doc then doc else Mapping [])"
  proof (rule parse_loop_records)
    show "parse_loop e yaml_files [] = Inr configs" using assms(1) by (simp add: parse_yaml_configs_def)
    show "\<forall>g \<in> set yaml_files. str_path g = str_path f \<longrightarrow> load e g = Inr doc"
      using assms(3,4) by simp
    show "dict_get [] (str_path f) = Some (if truthy doc then doc else Mapping []) \<or>
          (\<exists>g \<in> set yaml_files. str_path g = str_path f)" using assms(2) by blast
  qed
  with falsy show ?thesis by simp
qed

theorem falsy_document_recorded_as_empty_mapping_witness:
  "parse_yaml_configs example_env [[''/'', ''aaa'', ''config.yaml''], [''/'', ''aaa'', ''a'', ''config.yml'']] =
     Inr [(''/aaa/config.yaml'', Mapping [(''name'', Scalar (YStr ''base'')), (''port'', Scalar (YInt 80))]),
          (''/aaa/a/config.yml'', Mapping [])] \<and>
   load example_env [''/'', ''aaa'', ''a'', ''config.yml''] = Inr (Scalar (YInt 0)) \<and>
   \<not> truthy (Scalar (YInt 0)) \<and>
   dict_get [(''/aaa/config.yaml'', Mapping [(''name'', Scalar (YStr ''base'')), (''port'', Scalar (YInt 80))]),
             (''/aaa/a/config.yml'', Mapping [])]
     (str_path [''/'', ''aaa'', ''a'', ''config.yml'']) = Some (Mapping [])"
proof -
  let ?fs = "[[''/'', ''aaa'', ''config.yaml''], [''/'', ''aaa'', ''a'', ''config.yml'']]"
  let ?f = "[''/'', ''aaa'', ''a'', ''config.yml'']"
  have h1: "parse_yaml_configs example_env ?fs =
     Inr [(''/aaa/config.yaml'', Mapping [(''name'', Scalar (YStr ''base'')), (''port'', Scalar (YInt 80))]),
          (''/aaa/a/config.yml'', Mapping [])]"
    by (simp add: parse_yaml_configs_def example_env_def example_load_def str_path_def)
  have h2: "?f \<in> set ?fs" by simp
  have h3: "\<forall>g \<in> set ?fs. str_path g = str_path ?f \<longrightarrow> load example_env g = load example_env ?f"
    by (simp add: str_path_def)
  have h4: "load example_env ?f = Inr (Scalar (YInt 0))"
    by (simp add: example_env_def example_load_def)
  have h5: "Scalar (YInt 0) \<in> {Scalar YNull, Scalar (YBool False), Scalar (YInt 0), Scalar (YStr []),
      Seq [], Mapping []}" by simp
  from falsy_document_recorded_as_empty_mapping [OF h1 h2 h3 h4 h5] h1 h4 show ?thesis by blast
qed

section \<open>Properties of the merge by depth\<close>

lemma map_fst_dict_set:
  "map fst (dict_set d k v) = (if k \<in> set (map fst d) then map fst d else map fst d @ [k])"
  by (induction d) (force split: if_splits)+

lemma keys_dict_set: "fst ` set (dict_set d k v) = insert k (fst ` set d)"
proof -
  have "set (map fst (dict_set d k v)) = insert k (set (map fst d))"
    unfolding map_fst_dict_set by auto
  then show ?thesis by simp
qed

lemma scan_keys_eq:
  "all_keys = fst ` set key_sources \<Longrightarrow>
   scan_keys depth file_path keys (all_keys, key_sources, errors) =
     Inr (fst ` set (sources_after_keys file_path keys key_sources),
          sources_after_keys file_path keys key_sources,
          errors @ map render (key_events depth file_path keys key_sources))"
proof (induction keys arbitrary: all_keys key_sources errors)
  case Nil
  then show ?case by simp
next
  case (Cons key keys)
  show ?case
  proof (cases "dict_get key_sources key")
    case None
    then have notin: "key \<notin> all_keys" using Cons.prems by (simp add: dict_get_None_iff)
    have inv: "insert key all_keys = fst ` set (dict_set key_sources key file_path)"
      using Cons.prems by (simp add: keys_dict_set)
    show ?thesis using notin None Cons.IH [OF inv] by simp
  next
    case (Some src)
    then have "dict_get key_sources key \<noteq> None" by simp
    then have isin: "key \<in> all_keys" using Cons.prems by (simp add: dict_get_None_iff)
    show ?thesis using isin Some Cons.IH [OF Cons.prems] by (simp add: render_def)
  qed
qed

lemma scan_files_eq:
  "all_keys = fst ` set key_sources \<Longrightarrow> \<forall>x \<in> set fs. is_dict (snd x) \<Longrightarrow>
   scan_files depth fs (all_keys, key_sources, errors) =
     Inr (fst ` set (sources_after_files fs key_sources),
          sources_after_files fs key_sources,
          errors @ map render (file_events depth fs key_sources))"
proof (induction fs arbitrary: all_keys key_sources errors)
  case Nil
  then show ?case by simp
next
  case (Cons x fs)
  obtain file_path config where x: "x = (file_path, config)" by (cases x)
  from Cons.prems(2) x obtain m where m: "config = Mapping m" by (cases config) auto
  have rest: "\<forall>x \<in> set fs. is_dict (snd x)" using Cons.prems(2) by simp
  show ?case
    unfolding x m
    by (simp add: scan_keys_eq [OF Cons.prems(1)] Cons.IH [OF refl rest])
qed

lemma merge_files_eq:
  "\<forall>x \<in> set fs. is_dict (snd x) \<Longrightarrow>
   merge_files fs merged = Inr (fold (\<lambda>x acc. deep_merge acc (dict_of (snd x))) fs merged)"
proof (induction fs arbitrary: merged)
  case Nil
  then show ?case by simp
next
  case (Cons x fs)
  obtain file_path config where x: "x = (file_path, config)" by (cases x)
  from Cons.prems x obtain m where m: "config = Mapping m" by (cases config) auto
  have rest: "\<forall>x \<in> set fs. is_dict (snd x)" using Cons.prems by simp
  show ?case unfolding x m by (simp add: Cons.IH [OF rest])
qed

lemma merge_depths_eq:
  "\<forall>d \<in> set depths. \<forall>x \<in> set (group_get g d). is_dict (snd x) \<Longrightarrow>
   merge_depths g depths (merged, errors) =
     Inr (fold (\<lambda>x acc. deep_merge acc (dict_of (snd x))) (concat (map (group_get g) depths)) merged,
          errors @ map render (depth_events g depths))"
proof (induction depths arbitrary: merged errors)
  case Nil
  then show ?case by simp
next
  case (Cons d depths)
  have here: "\<forall>x \<in> set (group_get g d). is_dict (snd x)" using Cons.prems by simp
  have rest: "\<forall>d \<in> set depths. \<forall>x \<in> set (group_get g d). is_dict (snd x)" using Cons.prems by simp
  have scan: "scan_files d (group_get g d) ({}, [], errors) =
     Inr (fst ` set (sources_after_files (group_get g d) []),
          sources_after_files (group_get g d) [],
          errors @ map render (file_events d (group_get g d) []))"
    by (rule scan_files_eq [OF _ here]) simp
  show ?case
    by (simp add: Let_def scan merge_files_eq [OF here] Cons.IH [OF rest])
qed

lemma group_get_append:
  "group_get (group_append g d x) d' = (if d' = d then group_get g d @ [x] else group_get g d')"
  by (cases "dict_get g d") (simp_all add: group_get_def group_append_def dict_get_set)

lemma keys_group_append:
  "map fst (group_append g d x) = (if d \<in> set (map fst g) then map fst g else map fst g @ [d])"
  by (cases "dict_get g d") (simp_all add: group_append_def map_fst_dict_set)

lemma group_get_group_by_depth:
  "group_get (group_by_depth cs g) d = group_get g d @ filter (\<lambda>x. depth_of (fst x) = d) cs"
proof (induction cs arbitrary: g)
  case Nil
  then show ?case by simp
next
  case (Cons c cs)
  obtain p v where c: "c = (p, v)" by (cases c)
  show ?case unfolding c by (simp add: Cons.IH group_get_append)
qed

lemma distinct_group_by_depth:
  "distinct (map fst g) \<Longrightarrow> distinct (map fst (group_by_depth cs g))"
proof (induction cs arbitrary: g)
  case Nil
  then show ?case by simp
next
  case (Cons c cs)
  obtain p v where c: "c = (p, v)" by (cases c)
  have "distinct (map fst (group_append g (depth_of p) (p, v)))"
    unfolding keys_group_append using Cons.prems by simp
  then show ?case unfolding c by (simp add: Cons.IH)
qed

lemma group_get_Nil: "group_get [] d = []"
  by (simp add: group_get_def)

lemma set_group_by_depth:
  "fst ` set (group_by_depth cs g) = fst ` set g \<union> (\<lambda>x. depth_of (fst x)) ` set cs"
proof (induction cs arbitrary: g)
  case Nil
  then show ?case by simp
next
  case (Cons c cs)
  obtain p v where c: "c = (p, v)" by (cases c)
  have "set (map fst (group_append g (depth_of p) (p, v))) = insert (depth_of p) (set (map fst g))"
    unfolding keys_group_append by auto
  then have "fst ` set (group_append g (depth_of p) (p, v)) = insert (depth_of p) (fst ` set g)"
    by simp
  then show ?case unfolding c by (simp add: Cons.IH)
qed

lemma sorted_depths:
  "sort (map fst (group_by_depth configs [])) = sort (remdups (map (\<lambda>x. depth_of (fst x)) configs))"
proof (rule sorted_distinct_set_unique)
  show "distinct (sort (map fst (group_by_depth configs [])))"
    using distinct_group_by_depth [of "[]" configs] by simp
  show "set (sort (map fst (group_by_depth configs []))) =
        set (sort (remdups (map (\<lambda>x. depth_of (fst x)) configs)))"
    using set_group_by_depth [of configs "[]"] by simp
qed simp_all

lemma merge_configs_by_depth_eq:
  assumes "\<forall>x \<in> set configs. is_dict (snd x)"
  shows "merge_configs_by_depth configs =
     Inr (fold (\<lambda>x acc. deep_merge acc (dict_of (snd x)))
            (concat (map (\<lambda>d. filter (\<lambda>x. depth_of (fst x) = d) configs)
                         (sort (remdups (map (\<lambda>x. depth_of (fst x)) configs))))) [],
          map render (depth_events (group_by_depth configs [])
                        (sort (remdups (map (\<lambda>x. depth_of (fst x)) configs)))))"
proof (cases "configs = []")
  case True
  then show ?thesis by (simp add: merge_configs_by_depth_def)
next
  case False
  let ?g = "group_by_depth configs []"
  have get: "group_get ?g = (\<lambda>d. filter (\<lambda>x. depth_of (fst x) = d) configs)"
    by (rule ext) (simp add: group_get_group_by_depth group_get_Nil)
  have dicts: "\<forall>d \<in> set (sort (map fst ?g)). \<forall>x \<in> set (group_get ?g d). is_dict (snd x)"
    unfolding get using assms by simp
  show ?thesis
    unfolding merge_configs_by_depth_def Let_def
    using False merge_depths_eq [OF dicts, of "[]" "[]"]
    by (simp add: sorted_depths get)
qed

lemma sources_after_keys_get:
  "dict_get (sources_after_keys p ks src) k =
     (case dict_get src k of Some s \<Rightarrow> Some s | None \<Rightarrow> if k \<in> set ks then Some p else None)"
proof (induction ks arbitrary: src)
  case Nil
  then show ?case by (simp split: option.splits)
next
  case (Cons a ks)
  show ?case
  proof (cases "dict_get src a")
    case None
    then show ?thesis by (simp add: Cons.IH dict_get_set split: option.splits)
  next
    case (Some s)
    then show ?thesis by (auto simp: Cons.IH split: option.splits)
  qed
qed

lemma key_events_filter:
  "distinct ks \<Longrightarrow>
   filter (\<lambda>ev. fst (snd ev) = k) (key_events d p ks src) =
     (if k \<in> set ks then (case dict_get src k of Some s \<Rightarrow> [(d, k, s, p)] | None \<Rightarrow> []) else [])"
proof (induction ks arbitrary: src)
  case Nil
  then show ?case by simp
next
  case (Cons a ks)
  from Cons.prems have d: "distinct ks" and a: "a \<notin> set ks" by simp_all
  show ?case
  proof (cases "dict_get src a")
    case None
    show ?thesis
    proof (cases "a = k")
      case True
      with a None show ?thesis by (simp add: Cons.IH [OF d])
    next
      case False
      with None show ?thesis by (simp add: Cons.IH [OF d] dict_get_set)
    qed
  next
    case (Some s)
    show ?thesis
    proof (cases "a = k")
      case True
      with a Some show ?thesis by (simp add: Cons.IH [OF d])
    next
      case False
      with Some show ?thesis by (simp add: Cons.IH [OF d])
    qed
  qed
qed

lemma key_events_depth: "ev \<in> set (key_events d p ks src) \<Longrightarrow> fst ev = d"
  by (induction ks arbitrary: src) (auto split: option.splits)

lemma file_events_depth: "ev \<in> set (file_events d fs src) \<Longrightarrow> fst ev = d"
proof (induction fs arbitrary: src)
  case Nil
  then show ?case by simp
next
  case (Cons x fs)
  obtain p c where x: "x = (p, c)" by (cases x)
  from Cons.prems consider "ev \<in> set (key_events d p (map fst (dict_of c)) src)"
    | "ev \<in> set (file_events d fs (sources_after_keys p (map fst (dict_of c)) src))"
    unfolding x by auto
  then show ?case
  proof cases
    case 1
    then show ?thesis by (rule key_events_depth)
  next
    case 2
    then show ?thesis by (rule Cons.IH)
  qed
qed

lemma file_events_filter:
  "\<forall>x \<in> set fs. distinct (map fst (dict_of (snd x))) \<Longrightarrow>
   filter (\<lambda>ev. fst (snd ev) = k) (file_events d fs src) =
     (case dict_get src k of
        Some s \<Rightarrow> map (\<lambda>p. (d, k, s, p)) (definers k fs)
      | None \<Rightarrow> (case definers k fs of [] \<Rightarrow> [] | p1 # ps \<Rightarrow> map (\<lambda>p. (d, k, p1, p)) ps))"
proof (induction fs arbitrary: src)
  case Nil
  then show ?case by (simp add: definers_def split: option.splits)
next
  case (Cons x fs)
  obtain p c where x: "x = (p, c)" by (cases x)
  let ?ks = "map fst (dict_of c)"
  let ?src = "sources_after_keys p ?ks src"
  from Cons.prems x have dk: "distinct ?ks" and rest: "\<forall>x \<in> set fs. distinct (map fst (dict_of (snd x)))"
    by simp_all
  note IH = Cons.IH [OF rest, of ?src]
  have split: "filter (\<lambda>ev. fst (snd ev) = k) (file_events d (x # fs) src) =
      filter (\<lambda>ev. fst (snd ev) = k) (key_events d p ?ks src) @
      filter (\<lambda>ev. fst (snd ev) = k) (file_events d fs ?src)"
    unfolding x by simp
  show ?case
  proof (cases "k \<in> set ?ks")
    case True
    then have df: "definers k (x # fs) = p # definers k fs" by (simp add: definers_def x)
    show ?thesis
    proof (cases "dict_get src k")
      case None
      with True have "dict_get ?src k = Some p" by (simp add: sources_after_keys_get)
      with None True show ?thesis
        unfolding split key_events_filter [OF dk] IH df by simp
    next
      case (Some s)
      then have "dict_get ?src k = Some s" by (simp add: sources_after_keys_get)
      with Some True show ?thesis
        unfolding split key_events_filter [OF dk] IH df by simp
    qed
  next
    case False
    then have df: "definers k (x # fs) = definers k fs" by (simp add: definers_def x)
    from False have "dict_get ?src k = dict_get src k"
      by (simp add: sources_after_keys_get split: option.splits)
    with False show ?thesis
      unfolding split key_events_filter [OF dk] IH df by simp
  qed
qed

lemma depth_events_filter:
  "distinct ds \<Longrightarrow>
   filter (\<lambda>ev. fst ev = d \<and> fst (snd ev) = k) (depth_events g ds) =
     (if d \<in> set ds then filter (\<lambda>ev. fst (snd ev) = k) (file_events d (group_get g d) []) else [])"
proof (induction ds)
  case Nil
  then show ?case by simp
next
  case (Cons a ds)
  from Cons.prems have dd: "distinct ds" and a: "a \<notin> set ds" by simp_all
  show ?case
  proof (cases "a = d")
    case True
    have "filter (\<lambda>ev. fst ev = d \<and> fst (snd ev) = k) (file_events d (group_get g d) []) =
          filter (\<lambda>ev. fst (snd ev) = k) (file_events d (group_get g d) [])"
      by (rule filter_cong [OF refl]) (simp add: file_events_depth)
    with True a show ?thesis by (simp add: Cons.IH [OF dd])
  next
    case False
    have "filter (\<lambda>ev. fst ev = d \<and> fst (snd ev) = k) (file_events a (group_get g a) []) = []"
      unfolding filter_empty_conv using False file_events_depth by blast
    with False show ?thesis by (simp add: Cons.IH [OF dd])
  qed
qed

lemma render_eq: "render = (\<lambda>(d, k, existing_source, file_path). collision_msg d k existing_source file_path)"
  by (rule ext) (simp add: render_def)

text \<open>
  Claim C4. Every config being a dict, when exactly three files of a depth group define
  the top-level key, in the order \<open>p1\<close>, \<open>p2\<close>, \<open>p3\<close>, the diagnostics are the formatted list of collision events
  of which exactly two are for that key at that depth, and both name \<open>p1\<close> as the
  existing source.
\<close>

theorem three_colliding_files_blame_first:
  assumes "\<forall>(file_path, config) \<in> set configs. is_dict config \<and> wf_yaml config"
    and "map fst (filter (\<lambda>(file_path, config).
            depth_of file_path = depth \<and> dict_get (dict_of config) key \<noteq> None) configs)
         = [p1, p2, p3]"
  shows "\<exists>merged events.
     merge_configs_by_depth configs =
       Inr (merged, map (\<lambda>(d, k, existing_source, file_path).
                           collision_msg d k existing_source file_path) events) \<and>
     filter (\<lambda>(d, k, existing_source, file_path). d = depth \<and> k = key) events =
       [(depth, key, p1, p2), (depth, key, p1, p3)]"
proof -
  define ds where "ds = sort (remdups (map (\<lambda>x. depth_of (fst x)) configs))"
  define g where "g = group_by_depth configs []"
  define grp where "grp = filter (\<lambda>x. depth_of (fst x) = depth) configs"
  have dicts: "\<forall>x \<in> set configs. is_dict (snd x)" using assms(1) by auto
  have wf: "\<forall>x \<in> set grp. distinct (map fst (dict_of (snd x)))"
  proof
    fix x assume "x \<in> set grp"
    then have "x \<in> set configs" by (simp add: grp_def)
    with assms(1) have "is_dict (snd x)" "wf_yaml (snd x)" by auto
    then show "distinct (map fst (dict_of (snd x)))" by (cases "snd x") simp_all
  qed
  have pred: "(\<lambda>(file_path, config). depth_of file_path = depth \<and> dict_get (dict_of config) key \<noteq> None) =
        (\<lambda>x. depth_of (fst x) = depth \<and> key \<in> fst ` set (dict_of (snd x)))"
    by (rule ext) (simp add: case_prod_beta dict_get_None_iff)
  have "definers key grp =
     map fst (filter (\<lambda>x. depth_of (fst x) = depth \<and> key \<in> fst ` set (dict_of (snd x))) configs)"
    by (simp add: definers_def grp_def)
  then have def3: "definers key grp = [p1, p2, p3]"
    using assms(2) unfolding pred by simp
  have get: "group_get g depth = grp"
    by (simp add: g_def grp_def group_get_group_by_depth group_get_Nil)
  have "p1 \<in> set (definers key grp)" using def3 by simp
  then obtain x where "x \<in> set configs" "depth_of (fst x) = depth"
    by (auto simp: definers_def grp_def)
  then have mem: "depth \<in> set ds" by (auto simp: ds_def)
  have dist: "distinct ds" by (simp add: ds_def)
  have res: "merge_configs_by_depth configs =
     Inr (fold (\<lambda>x acc. deep_merge acc (dict_of (snd x)))
            (concat (map (\<lambda>d. filter (\<lambda>x. depth_of (fst x) = d) configs) ds)) [],
          map render (depth_events g ds))"
    unfolding ds_def g_def by (rule merge_configs_by_depth_eq [OF dicts])
  have f1: "filter (\<lambda>ev. fst ev = depth \<and> fst (snd ev) = key) (depth_events g ds) =
        [(depth, key, p1, p2), (depth, key, p1, p3)]"
    unfolding depth_events_filter [OF dist] get file_events_filter [OF wf] def3
    using mem by simp
  have f2: "(\<lambda>(d, k, existing_source, file_path). d = depth \<and> k = key) =
        (\<lambda>ev :: event. fst ev = depth \<and> fst (snd ev) = key)"
    by (rule ext) (simp add: case_prod_beta)
  have "filter (\<lambda>(d, k, existing_source, file_path). d = depth \<and> k = key)
       (depth_events g ds) = [(depth, key, p1, p2), (depth, key, p1, p3)]"
    unfolding f2 by (rule f1)
  with res show ?thesis unfolding render_eq by blast
qed

lemma depth_examples:
  "depth_of ''/base/level1/config1.yaml'' = 4"
  "depth_of ''/base/level1/config2.yaml'' = 4"
  "depth_of ''/base/level1/level2/config.yaml'' = 5"
  "depth_of ''/base/a.yaml'' = 3"
  "depth_of ''/base/b.yaml'' = 3"
  "depth_of ''/base/c.yaml'' = 3"
  "depth_of ''/base/deep/z.yaml'' = 4"
  by (simp_all add: depth_of_def path_parts_def)

theorem three_colliding_files_blame_first_witness:
  "list_all (\<lambda>(file_path, config). is_dict config \<and> wf_yaml config) example_collisions \<and>
   map fst (filter (\<lambda>(file_path, config).
            depth_of file_path = 3 \<and> dict_get (dict_of config) ''k'' \<noteq> None) example_collisions)
     = [''/base/a.yaml'', ''/base/b.yaml'', ''/base/c.yaml''] \<and>
   (\<exists>merged events.
     merge_configs_by_depth example_collisions =
       Inr (merged, map (\<lambda>(d, k, existing_source, file_path).
                           collision_msg d k existing_source file_path) events) \<and>
     filter (\<lambda>(d, k, existing_source, file_path). d = 3 \<and> k = ''k'') events =
       [(3, ''k'', ''/base/a.yaml'', ''/base/b.yaml''), (3, ''k'', ''/base/a.yaml'', ''/base/c.yaml'')])"
proof -
  have h1: "list_all (\<lambda>(file_path, config). is_dict config \<and> wf_yaml config) example_collisions"
    by (simp add: example_collisions_def)
  have h2: "map fst (filter (\<lambda>(file_path, config).
            depth_of file_path = 3 \<and> dict_get (dict_of config) ''k'' \<noteq> None) example_collisions)
     = [''/base/a.yaml'', ''/base/b.yaml'', ''/base/c.yaml'']"
    by (simp add: example_collisions_def depth_examples)
  from three_colliding_files_blame_first [OF h1 [unfolded list_all_iff] h2] h1 h2
  show ?thesis by (intro conjI)
qed







section \<open>Properties of the deep merge on a store\<close>

lemma lookup_append_old: "a < length s \<Longrightarrow> lookup (s @ t) a = lookup s a"
  by (simp add: lookup_def nth_append)

lemma lookup_prefix: "prefix s s' \<Longrightarrow> lookup s a = Some ob \<Longrightarrow> lookup s' a = Some ob"
  by (auto simp: prefix_def lookup_def nth_append split: if_splits)

lemma lookup_update_other: "a \<noteq> x \<Longrightarrow> lookup (s[x := ob]) a = lookup s a"
  by (simp add: lookup_def)

lemma lookup_update_same: "x < length s \<Longrightarrow> lookup (s[x := ob]) x = Some ob"
  by (simp add: lookup_def)

lemma lookup_Some_less: "lookup s a = Some ob \<Longrightarrow> a < length s"
  by (simp add: lookup_def split: if_splits)

lemma repr_Mapping_iff:
  "repr X s a (Mapping m) \<longleftrightarrow> a \<notin> X \<and> (\<exists>es. lookup s a = Some (ODict es) \<and> ents X s es m)"
  by (auto simp: ents_def split: option.splits obj.splits)

lemma repr_cong_lookup:
  assumes "repr X s a v"
    and "\<And>b. b \<notin> X \<Longrightarrow> b < length s \<Longrightarrow> lookup s' b = lookup s b"
    and "\<And>b. b \<in> Y \<Longrightarrow> b \<in> X \<or> length s \<le> b"
  shows "repr Y s' a v"
  using assms(1)
proof (induction v arbitrary: a)
  case (Scalar x)
  then have a: "a \<notin> X" "lookup s a = Some (OScalar x)" by simp_all
  from a(2) have lt: "a < length s" by (rule lookup_Some_less)
  have nY: "a \<notin> Y" using assms(3) [of a] a(1) lt by auto
  have "lookup s' a = lookup s a" using a(1) lt by (rule assms(2))
  with a(2) nY show ?case by simp
next
  case (Seq vs)
  from Seq.prems obtain as where a: "a \<notin> X" "lookup s a = Some (OList as)"
    "list_all2 (repr X s) as vs"
    by (auto split: option.splits obj.splits)
  from a(2) have lt: "a < length s" by (rule lookup_Some_less)
  have nY: "a \<notin> Y" using assms(3) [of a] a(1) lt by auto
  have lk: "lookup s' a = lookup s a" using a(1) lt by (rule assms(2))
  have "list_all2 (repr Y s') as vs"
    using a(3) by (rule list.rel_mono_strong) (use Seq.IH in blast)
  with a(2) nY lk show ?case by simp
next
  case (Mapping m)
  from Mapping.prems obtain es where a: "a \<notin> X" "lookup s a = Some (ODict es)"
    "map fst es = map fst m" "list_all2 (repr X s) (map snd es) (map snd m)"
    by (auto split: option.splits obj.splits)
  from a(2) have lt: "a < length s" by (rule lookup_Some_less)
  have "list_all2 (repr Y s') (map snd es) (map snd m)"
    using a(4)
  proof (rule list.rel_mono_strong)
    fix b w assume "b \<in> set (map snd es)" "w \<in> set (map snd m)" "repr X s b w"
    then obtain k where "(k, w) \<in> set m" by auto
    then show "repr Y s' b w" using Mapping.IH [of "(k, w)" w b] \<open>repr X s b w\<close> by simp
  qed
  moreover have nY: "a \<notin> Y" using assms(3) [of a] a(1) lt by auto
  moreover have lk: "lookup s' a = lookup s a" using a(1) lt by (rule assms(2))
  ultimately show ?case using a(2,3) by simp
qed

lemma repr_mono: "repr X s a v \<Longrightarrow> prefix s s' \<Longrightarrow> repr X s' a v"
proof (rule repr_cong_lookup)
  fix b assume "prefix s s'" "b < length s"
  then show "lookup s' b = lookup s b"
    by (auto simp: prefix_def lookup_append_old)
qed auto

lemma repr_update: "repr X s a v \<Longrightarrow> x \<in> X \<Longrightarrow> repr X (s[x := ob]) a v"
proof (rule repr_cong_lookup)
  fix b assume "x \<in> X" "b \<notin> X"
  then have "b \<noteq> x" by auto
  then show "lookup (s[x := ob]) b = lookup s b" by (rule lookup_update_other)
qed auto

lemma repr_forbid: "repr X s a v \<Longrightarrow> (\<And>b. b \<in> Y \<Longrightarrow> b \<in> X \<or> length s \<le> b) \<Longrightarrow> repr Y s a v"
  by (rule repr_cong_lookup) auto

lemma repr_is_dict: "repr X s a v \<Longrightarrow> is_dict_at s a = is_dict v"
  by (cases v) (auto simp: is_dict_at_def split: option.splits obj.splits)

lemma ents_Nil [simp]: "ents X s [] m \<longleftrightarrow> m = []"
  by (auto simp: ents_def)

lemma ents_Cons:
  "ents X s ((k, a) # es) m \<longleftrightarrow> (\<exists>v m'. m = (k, v) # m' \<and> repr X s a v \<and> ents X s es m')"
  by (cases m) (auto simp: ents_def)

lemma ents_lift:
  "ents X s es m \<Longrightarrow> (\<And>a v. repr X s a v \<Longrightarrow> repr Y s' a v) \<Longrightarrow> ents Y s' es m"
  unfolding ents_def by (auto elim: list.rel_mono_strong)

lemma ents_dict_get:
  "ents X s es m \<Longrightarrow>
   (case dict_get es k of
      None \<Rightarrow> dict_get m k = None
    | Some a \<Rightarrow> \<exists>v. dict_get m k = Some v \<and> repr X s a v)"
proof (induction es arbitrary: m)
  case Nil
  then show ?case by simp
next
  case (Cons e es)
  obtain k' a where e: "e = (k', a)" by (cases e)
  from Cons.prems obtain v m' where m: "m = (k', v) # m'" "repr X s a v" "ents X s es m'"
    unfolding e ents_Cons by blast
  show ?case
  proof (cases "k' = k")
    case True
    with m(1,2) show ?thesis by (simp add: e)
  next
    case False
    with Cons.IH [OF m(3)] m(1) show ?thesis by (simp add: e split: option.splits)
  qed
qed

lemma ents_dict_set:
  "ents X s es m \<Longrightarrow> repr X s a v \<Longrightarrow> ents X s (dict_set es k a) (dict_set m k v)"
proof (induction es arbitrary: m)
  case Nil
  then show ?case by (simp add: ents_Cons)
next
  case (Cons e es)
  obtain k' b where e: "e = (k', b)" by (cases e)
  from Cons.prems(1) obtain w m' where m: "m = (k', w) # m'" "repr X s b w" "ents X s es m'"
    unfolding e ents_Cons by blast
  show ?case
    using Cons.IH [OF m(3) Cons.prems(2)] m Cons.prems(2) by (simp add: e ents_Cons)
qed

lemma size_member: "(k, v) \<in> set m \<Longrightarrow> size v < size (Mapping m)"
  by (induction m) auto

lemma set_item_dict:
  "lookup s d = Some (ODict es) \<Longrightarrow> set_item s d key v = Inr (s[d := ODict (dict_set es key v)])"
  by (simp add: set_item_def)

lemma merge_items_st_correct:
  assumes call: "\<And>s b ov A B X.
       X \<subseteq> {..<length s} \<Longrightarrow> repr X s b (Mapping A) \<Longrightarrow> repr X s ov (Mapping B) \<Longrightarrow>
       size (Mapping B) \<le> n \<Longrightarrow>
       \<exists>s'. deep_merge_st n s b ov = Some (Inr (s', length s)) \<and> prefix s s' \<and>
            repr X s' (length s) (Mapping (deep_merge A B))"
  shows "r < length s \<Longrightarrow> X \<subseteq> {..<length s} \<Longrightarrow> r \<notin> X \<Longrightarrow>
     lookup s r = Some (ODict rm) \<Longrightarrow> ents (insert r X) s rm R \<Longrightarrow>
     ents (insert r X) s items Bi \<Longrightarrow> (\<forall>v \<in> snd ` set Bi. size v \<le> n) \<Longrightarrow>
     \<exists>s' rm'. merge_items_st n s r items = Some (Inr s') \<and> length s \<le> length s' \<and>
        (\<forall>a < length s. a \<noteq> r \<longrightarrow> s' ! a = s ! a) \<and>
        lookup s' r = Some (ODict rm') \<and> ents (insert r X) s' rm' (deep_merge R Bi)"
proof (induction items arbitrary: s rm R Bi)
  case Nil
  then show ?case by auto
next
  case (Cons e rest)
  let ?X = "insert r X"
  obtain key va where e: "e = (key, va)" by (cases e)
  from Cons.prems(6) obtain v Bi' where Bi: "Bi = (key, v) # Bi'"
    and va: "repr ?X s va v" and rest: "ents ?X s rest Bi'"
    unfolding e ents_Cons by blast
  from Cons.prems(7) Bi have sz: "size v \<le> n" and szs: "\<forall>v \<in> snd ` set Bi'. size v \<le> n"
    by auto
  note lk = Cons.prems(4)
  note R = Cons.prems(5)
  let ?new = "combine (dict_get R key) v"
  have "\<exists>s2 rm2. merge_items_st n s r (e # rest) = merge_items_st n s2 r rest \<and>
      length s \<le> length s2 \<and> (\<forall>a < length s. a \<noteq> r \<longrightarrow> s2 ! a = s ! a) \<and>
      lookup s2 r = Some (ODict rm2) \<and> ents ?X s2 rm2 (dict_set R key ?new) \<and>
      ents ?X s2 rest Bi'"
  proof (cases "\<exists>old. dict_get rm key = Some old \<and> is_dict_at s old \<and> is_dict_at s va")
    case True
    then obtain old where old: "dict_get rm key = Some old" "is_dict_at s old" "is_dict_at s va"
      by blast
    from ents_dict_get [OF R, of key] old(1)
    obtain vo where vo: "dict_get R key = Some vo" "repr ?X s old vo" by auto
    from old(2) repr_is_dict [OF vo(2)] obtain ro where ro: "vo = Mapping ro"
      by (cases vo) auto
    from old(3) repr_is_dict [OF va] obtain vm where vm: "v = Mapping vm"
      by (cases v) auto
    have sub: "?X \<subseteq> {..<length s}" using Cons.prems(1,2) by auto
    from call [OF sub vo(2) [unfolded ro] va [unfolded vm]] sz vm
    obtain s1 where s1: "deep_merge_st n s old va = Some (Inr (s1, length s))" "prefix s s1"
      "repr ?X s1 (length s) (Mapping (deep_merge ro vm))" by auto
    have lk1: "lookup s1 r = Some (ODict rm)" using s1(2) lk by (rule lookup_prefix)
    let ?rm2 = "dict_set rm key (length s)"
    let ?s2 = "s1[r := ODict ?rm2]"
    have len: "length s \<le> length s1" using s1(2) by (rule prefix_length_le)
    have run: "merge_items_st n s r (e # rest) = merge_items_st n ?s2 r rest"
      by (simp add: e lk old s1(1) set_item_dict [OF lk1])
    have frame: "\<forall>a < length s. a \<noteq> r \<longrightarrow> ?s2 ! a = s ! a"
      using s1(2) by (auto simp: prefix_def nth_append)
    have lk2: "lookup ?s2 r = Some (ODict ?rm2)"
      using Cons.prems(1) len by (simp add: lookup_update_same)
    have lift: "repr ?X ?s2 a w" if "repr ?X s a w" for a w
      by (rule repr_update [OF repr_mono [OF that s1(2)]]) simp
    have new: "?new = Mapping (deep_merge ro vm)" by (simp add: vo(1) ro vm)
    have n2: "repr ?X ?s2 (length s) (Mapping (deep_merge ro vm))"
      by (rule repr_update [OF s1(3)]) simp
    have e2: "ents ?X ?s2 ?rm2 (dict_set R key ?new)"
      unfolding new by (rule ents_dict_set [OF ents_lift [OF R lift] n2])
    have r2: "ents ?X ?s2 rest Bi'" by (rule ents_lift [OF rest lift])
    from run len frame lk2 e2 r2 show ?thesis by (intro exI [of _ ?s2] exI [of _ ?rm2]) simp
  next
    case False
    let ?rm2 = "dict_set rm key va"
    let ?s2 = "s[r := ODict ?rm2]"
    have run: "merge_items_st n s r (e # rest) = merge_items_st n ?s2 r rest"
      using False by (cases "dict_get rm key") (auto simp: e lk set_item_dict [OF lk])
    have frame: "\<forall>a < length s. a \<noteq> r \<longrightarrow> ?s2 ! a = s ! a" by simp
    have lk2: "lookup ?s2 r = Some (ODict ?rm2)"
      using Cons.prems(1) by (simp add: lookup_update_same)
    have lift: "repr ?X ?s2 a w" if "repr ?X s a w" for a w
      by (rule repr_update [OF that]) simp
    have new: "?new = v"
    proof (cases "dict_get rm key")
      case None
      with ents_dict_get [OF R, of key] have "dict_get R key = None" by simp
      then show ?thesis by simp
    next
      case (Some old)
      with ents_dict_get [OF R, of key]
      obtain vo where vo: "dict_get R key = Some vo" "repr ?X s old vo" by auto
      from False Some have "\<not> (is_dict_at s old \<and> is_dict_at s va)" by simp
      then have "\<not> (is_dict vo \<and> is_dict v)"
        using repr_is_dict [OF vo(2)] repr_is_dict [OF va] by simp
      then show ?thesis unfolding vo(1) by (cases vo; cases v) simp_all
    qed
    have e2: "ents ?X ?s2 ?rm2 (dict_set R key ?new)"
      unfolding new by (rule ents_dict_set [OF ents_lift [OF R lift] lift [OF va]])
    have r2: "ents ?X ?s2 rest Bi'" by (rule ents_lift [OF rest lift])
    from run frame lk2 e2 r2 show ?thesis by (intro exI [of _ ?s2] exI [of _ ?rm2]) simp
  qed
  then obtain s2 rm2 where s2: "merge_items_st n s r (e # rest) = merge_items_st n s2 r rest"
    "length s \<le> length s2" "\<forall>a < length s. a \<noteq> r \<longrightarrow> s2 ! a = s ! a"
    "lookup s2 r = Some (ODict rm2)" "ents ?X s2 rm2 (dict_set R key ?new)"
    "ents ?X s2 rest Bi'" by blast
  have r2: "r < length s2" using Cons.prems(1) s2(2) by simp
  have X2: "X \<subseteq> {..<length s2}" using Cons.prems(2) s2(2) by auto
  from Cons.IH [OF r2 X2 Cons.prems(3) s2(4) s2(5) s2(6) szs]
  obtain s' rm' where fin: "merge_items_st n s2 r rest = Some (Inr s')" "length s2 \<le> length s'"
    "\<forall>a < length s2. a \<noteq> r \<longrightarrow> s' ! a = s2 ! a" "lookup s' r = Some (ODict rm')"
    "ents ?X s' rm' (deep_merge (dict_set R key ?new) Bi')" by blast
  have "\<forall>a < length s. a \<noteq> r \<longrightarrow> s' ! a = s ! a"
    using fin(3) s2(2,3) by auto
  moreover have "deep_merge R Bi = deep_merge (dict_set R key ?new) Bi'"
    unfolding Bi by (rule deep_merge_Cons)
  ultimately show ?case
    using s2(1,2) fin(1,2,4,5) by (intro exI [of _ s'] exI [of _ rm']) simp
qed

lemma prefix_by_nth:
  assumes "length s \<le> length s'" and "\<forall>a < length s. s' ! a = s ! a"
  shows "prefix s s'"
proof -
  have "take (length s) s' = s"
    using assms by (intro nth_equalityI) simp_all
  then show ?thesis by (metis take_is_prefix)
qed

lemma deep_merge_st_correct:
  "X \<subseteq> {..<length s} \<Longrightarrow> repr X s b (Mapping A) \<Longrightarrow> repr X s ov (Mapping B) \<Longrightarrow>
   size (Mapping B) \<le> n \<Longrightarrow>
   \<exists>s'. deep_merge_st n s b ov = Some (Inr (s', length s)) \<and> prefix s s' \<and>
        repr X s' (length s) (Mapping (deep_merge A B))"
proof (induction n arbitrary: s b ov A B X)
  case 0
  then show ?case by simp
next
  case (Suc n)
  let ?r = "length s"
  let ?X = "insert ?r X"
  from Suc.prems(2) obtain bm where bm: "lookup s b = Some (ODict bm)" "ents X s bm A"
    unfolding repr_Mapping_iff by blast
  from Suc.prems(3) obtain om where om: "lookup s ov = Some (ODict om)" "ents X s om B"
    unfolding repr_Mapping_iff by blast
  let ?s1 = "s @ [ODict bm]"
  have rX: "?r \<notin> X" using Suc.prems(1) by auto
  have lift: "repr ?X ?s1 a w" if "repr X s a w" for a w
    using that
  proof (rule repr_cong_lookup)
    fix c assume "c < length s"
    then show "lookup ?s1 c = lookup s c" by (rule lookup_append_old)
  qed auto
  have p1: "?r < length ?s1" by simp
  have p2: "X \<subseteq> {..<length ?s1}" using Suc.prems(1) by auto
  have p4: "lookup ?s1 ?r = Some (ODict bm)" by (simp add: lookup_def)
  have p5: "ents ?X ?s1 bm A" by (rule ents_lift [OF bm(2) lift])
  have p6: "ents ?X ?s1 om B" by (rule ents_lift [OF om(2) lift])
  have p7: "\<forall>v \<in> snd ` set B. size v \<le> n"
  proof
    fix v assume "v \<in> snd ` set B"
    then obtain k where "(k, v) \<in> set B" by auto
    then have "size v < size (Mapping B)" by (rule size_member)
    with Suc.prems(4) show "size v \<le> n" by simp
  qed
  from merge_items_st_correct [where n = n, OF Suc.IH p1 p2 rX p4 p5 p6 p7]
  obtain s' rm' where fin: "merge_items_st n ?s1 ?r om = Some (Inr s')" "length ?s1 \<le> length s'"
    "\<forall>a < length ?s1. a \<noteq> ?r \<longrightarrow> s' ! a = ?s1 ! a" "lookup s' ?r = Some (ODict rm')"
    "ents ?X s' rm' (deep_merge A B)" by blast
  have run: "deep_merge_st (Suc n) s b ov = Some (Inr (s', ?r))"
    by (simp add: bm(1) om(1) fin(1))
  have "\<forall>a < length s. s' ! a = s ! a"
    using fin(3) by (auto simp: nth_append)
  moreover have "length s \<le> length s'" using fin(2) by simp
  ultimately have pre: "prefix s s'" by (intro prefix_by_nth)
  have "ents X s' rm' (deep_merge A B)"
    by (rule ents_lift [OF fin(5)]) (rule repr_forbid, assumption, simp)
  with rX fin(4) have res: "repr X s' ?r (Mapping (deep_merge A B))"
    unfolding repr_Mapping_iff by blast
  from run pre res show ?case by blast
qed

text \<open>
  Claim C9. On a store in which \<open>base\<close> and \<open>override\<close> are dicts holding the trees \<open>A\<close>
  and \<open>B\<close>, \<^verbatim>\<open>_deep_merge\<close> returns; every object that existed before the call is
  unchanged after it, so \<open>base\<close> and \<open>override\<close> still hold \<open>A\<close> and \<open>B\<close>; the result is an
  object that did not exist before and holds the merge of \<open>A\<close> and \<open>B\<close>. The copy of
  \<open>base\<close> is shallow: its entries are the references of \<open>base\<close>.
\<close>

theorem deep_merge_leaves_inputs_unchanged:
  assumes "repr {} s base (Mapping A)" and "repr {} s override (Mapping B)"
  shows "\<exists>n s'. deep_merge_st n s base override = Some (Inr (s', length s)) \<and>
     prefix s s' \<and> lookup s (length s) = None \<and>
     (\<forall>a ob. lookup s a = Some ob \<longrightarrow> lookup s' a = Some ob) \<and>
     repr {} s' base (Mapping A) \<and> repr {} s' override (Mapping B) \<and>
     repr {} s' (length s) (Mapping (deep_merge A B))"
proof -
  from deep_merge_st_correct [OF _ assms, of "size (Mapping B)"]
  obtain s' where s': "deep_merge_st (size (Mapping B)) s base override = Some (Inr (s', length s))"
    "prefix s s'" "repr {} s' (length s) (Mapping (deep_merge A B))" by auto
  have "lookup s (length s) = None" by (simp add: lookup_def)
  moreover have "\<forall>a ob. lookup s a = Some ob \<longrightarrow> lookup s' a = Some ob"
    using s'(2) lookup_prefix by blast
  moreover have "repr {} s' base (Mapping A)" using assms(1) s'(2) by (rule repr_mono)
  moreover have "repr {} s' override (Mapping B)" using assms(2) s'(2) by (rule repr_mono)
  ultimately show ?thesis using s' by blast
qed

theorem deep_merge_leaves_inputs_unchanged_witness:
  "repr {} example_store 3
     (Mapping [(''a'', Scalar (YInt 1)), (''c'', Mapping [(''nested'', Scalar (YStr ''base''))])]) \<and>
   repr {} example_store 7
     (Mapping [(''c'', Mapping [(''nested'', Scalar (YStr ''override'')), (''new'', Scalar (YStr ''value''))]),
               (''d'', Scalar (YInt 1))]) \<and>
   (\<exists>n s'. deep_merge_st n example_store 3 7 = Some (Inr (s', length example_store)) \<and>
     prefix example_store s' \<and> lookup example_store (length example_store) = None \<and>
     (\<forall>a ob. lookup example_store a = Some ob \<longrightarrow> lookup s' a = Some ob) \<and>
     repr {} s' 3
       (Mapping [(''a'', Scalar (YInt 1)), (''c'', Mapping [(''nested'', Scalar (YStr ''base''))])]) \<and>
     repr {} s' 7
       (Mapping [(''c'', Mapping [(''nested'', Scalar (YStr ''override'')), (''new'', Scalar (YStr ''value''))]),
                 (''d'', Scalar (YInt 1))]) \<and>
     repr {} s' (length example_store)
       (Mapping (deep_merge
          [(''a'', Scalar (YInt 1)), (''c'', Mapping [(''nested'', Scalar (YStr ''base''))])]
          [(''c'', Mapping [(''nested'', Scalar (YStr ''override'')), (''new'', Scalar (YStr ''value''))]),
           (''d'', Scalar (YInt 1))])))"
proof -
  have h1: "repr {} example_store 3
     (Mapping [(''a'', Scalar (YInt 1)), (''c'', Mapping [(''nested'', Scalar (YStr ''base''))])])"
    by (simp add: example_store_def lookup_def)
  have h2: "repr {} example_store 7
     (Mapping [(''c'', Mapping [(''nested'', Scalar (YStr ''override'')), (''new'', Scalar (YStr ''value''))]),
               (''d'', Scalar (YInt 1))])"
    by (simp add: example_store_def lookup_def)
  from deep_merge_leaves_inputs_unchanged [OF h1 h2] h1 h2 show ?thesis by (intro conjI)
qed

lemma example_store_result_shares_base:
  "deep_merge_st 3 example_store 3 7 =
     Some (Inr (example_store @
                  [ODict [(''a'', 0), (''c'', 9), (''d'', 0)], ODict [(''nested'', 4), (''new'', 5)]],
                8))"
  by (simp add: example_store_def lookup_def is_dict_at_def set_item_def numeral_3_eq_3)

end
